theory Spec2Isabelle
  imports Main "HOL-Library.AList" "HOL-Library.Multiset"
begin

chapter \<open>The generational object store and the policy API handlers\<close>

text \<open>
  The development follows three packages of the repository, all found in
  \<^verbatim>\<open>src/pkg/api/objects.go\<close>:
  \<^item> package \<^verbatim>\<open>store\<close>: the index descriptions (\<^verbatim>\<open>Indexes\<close>, \<^verbatim>\<open>Index\<close>,
    \<^verbatim>\<open>IndexesFor\<close>) and the sorted container \<^verbatim>\<open>IndexValueList\<close>;
  \<^item> package \<^verbatim>\<open>etcd\<close>: \<^verbatim>\<open>etcdStore.Save\<close> and \<^verbatim>\<open>etcdStore.Find\<close>;
  \<^item> package \<^verbatim>\<open>api\<close>: \<^verbatim>\<open>handlePolicyUpdate\<close>, \<^verbatim>\<open>handlePolicyDelete\<close>,
    \<^verbatim>\<open>changePolicy\<close> and the sorter \<^verbatim>\<open>apiObjectSorter\<close>.
\<close>

section \<open>Package store: IndexValueList\<close>

text \<open>
  Go's \<^verbatim>\<open>[]byte\<close> and \<^verbatim>\<open>string\<close> are both sequences of bytes; a \<^typ>\<open>char\<close> is one
  byte, read as a number by \<^const>\<open>of_char\<close>.
\<close>

type_synonym bytes = string

type_synonym IndexValueList = "bytes list"

text \<open>
  \<^verbatim>\<open>bytes.Compare\<close> of the Go standard library: lexicographic order of the unsigned
  bytes, result \<open>-1\<close>, \<open>0\<close> or \<open>1\<close>. \<^verbatim>\<open>bytes.Equal\<close> is equality.
\<close>

fun bytes_Compare :: "bytes \<Rightarrow> bytes \<Rightarrow> int" where
  "bytes_Compare [] [] = 0"
| "bytes_Compare [] (y # ys) = - 1"
| "bytes_Compare (x # xs) [] = 1"
| "bytes_Compare (x # xs) (y # ys) =
     (if (of_char x :: nat) < of_char y then - 1
      else if (of_char y :: nat) < of_char x then 1
      else bytes_Compare xs ys)"

text \<open>
  \<^verbatim>\<open>sort.Search(n, f)\<close> of the Go standard library is the loop
  \<^verbatim>\<open>i, j := 0, n; for i < j { h := int(uint(i+j) >> 1); if !f(h) { i = h + 1 } else { j = h } }; return i\<close>.
\<close>

function sort_Search_loop :: "(nat \<Rightarrow> bool) \<Rightarrow> nat \<Rightarrow> nat \<Rightarrow> nat" where
  "sort_Search_loop f i j =
     (if i < j then
        (let h = (i + j) div 2 in
         if \<not> f h then sort_Search_loop f (h + 1) j else sort_Search_loop f i h)
      else i)"
  by pat_completeness auto
termination
  by (relation "measure (\<lambda>(f, i, j). j - i)") auto

declare sort_Search_loop.simps [simp del]

definition sort_Search :: "nat \<Rightarrow> (nat \<Rightarrow> bool) \<Rightarrow> nat" where
  "sort_Search n f = sort_Search_loop f 0 n"

text \<open>
  \<^verbatim>\<open>IndexValueList.Add\<close>: binary search for the position, return when the value is
  already there, otherwise grow the slice by one, shift the tail right and store the
  value at the position.
\<close>

definition Add :: "IndexValueList \<Rightarrow> bytes \<Rightarrow> IndexValueList" where
  "Add list value =
     (let valueIndex = sort_Search (length list)
                         (\<lambda>index. bytes_Compare (list ! index) value \<ge> 0) in
      if valueIndex < length list \<and> list ! valueIndex = value then list
      else take valueIndex list @ [value] @ drop valueIndex list)"

text \<open>
  \<^verbatim>\<open>IndexValueList.Remove\<close>: the same search, then, whenever the position is inside
  the slice, the tail is shifted left over it and the slice shrinks by one. The
  source has no \<^verbatim>\<open>bytes.Equal\<close> test here.
\<close>

definition Remove :: "IndexValueList \<Rightarrow> bytes \<Rightarrow> IndexValueList" where
  "Remove list value =
     (let valueIndex = sort_Search (length list)
                         (\<lambda>index. bytes_Compare (list ! index) value \<ge> 0) in
      if valueIndex < length list then take valueIndex list @ drop (valueIndex + 1) list
      else list)"

text \<open>\<^verbatim>\<open>IndexValueList.Contains\<close>.\<close>

definition Contains :: "IndexValueList \<Rightarrow> bytes \<Rightarrow> bool" where
  "Contains list value =
     (let valueIndex = sort_Search (length list)
                         (\<lambda>index. bytes_Compare (list ! index) value \<ge> 0) in
      valueIndex < length list \<and> list ! valueIndex = value)"

text \<open>A list is sorted when \<^verbatim>\<open>bytes.Compare\<close> never puts a later element first.\<close>

definition sorted_bytes :: "IndexValueList \<Rightarrow> bool" where
  "sorted_bytes list = sorted_wrt (\<lambda>a b. bytes_Compare a b \<le> 0) list"

section \<open>Package runtime: kinds, keys, generations, objects\<close>

text \<open>
  Package \<^verbatim>\<open>runtime\<close> is imported by the three packages and is not part of the
  sources at hand; what the store needs of it is written here.

  Modelled from the spec: \<^verbatim>\<open>runtime.Generation\<close>, \<^verbatim>\<open>LastOrEmptyGen\<close>, \<^verbatim>\<open>FirstGen\<close>,
  \<^verbatim>\<open>MaxGeneration\<close>, \<^verbatim>\<open>Generation.Next\<close> and \<^verbatim>\<open>Generation.String\<close>. The spec (section 3)
  makes a generation a "monotonically increasing positive integer", with \<open>0\<close> for
  "last or empty" and \<open>1\<close> the first one assigned; the persistence layout prints it in
  decimal (\<^verbatim>\<open>/object/<ns>/<kind>/<name>@<gen>\<close>). Generations are natural numbers here
  and \<^verbatim>\<open>MaxGeneration\<close> is the largest unsigned 64-bit value.
\<close>

type_synonym Kind = string

type_synonym Key = string

type_synonym Generation = nat

definition LastOrEmptyGen :: Generation where
  "LastOrEmptyGen = 0"

definition FirstGen :: Generation where
  "FirstGen = 1"

definition MaxGeneration :: Generation where
  "MaxGeneration = 2 ^ 64 - 1"

definition Next :: "Generation \<Rightarrow> Generation" where
  "Next gen = gen + 1"

definition digit_char :: "nat \<Rightarrow> char" where
  "digit_char d = ''0123456789'' ! d"

function Generation_String :: "Generation \<Rightarrow> string" where
  "Generation_String gen =
     (if gen < 10 then [digit_char gen]
      else Generation_String (gen div 10) @ [digit_char (gen mod 10)])"
  by pat_completeness auto
termination
  by (relation "measure (\<lambda>gen. gen)") auto

declare Generation_String.simps [simp del]

text \<open>
  Failures: an \<^verbatim>\<open>error\<close> value returned by a function, or a \<^verbatim>\<open>panic\<close>. Both carry the
  message.
\<close>

datatype failure = Error string | Panic string

text \<open>
  The value of a struct field as \<^verbatim>\<open>interface{}\<close>, as \<^verbatim>\<open>Index.NameForValue\<close> tells
  values apart: \<^verbatim>\<open>nil\<close>, a \<^verbatim>\<open>string\<close>, a \<^verbatim>\<open>runtime.Generation\<close>, or anything else.
  Modelled from the spec: the codec is not part of the sources at hand, and a value of
  any other type is represented by the bytes \<^verbatim>\<open>codec.Marshal\<close> gives for it ("uses the
  codec for non-scalars", spec 4.3).
\<close>

datatype fvalue =
    NilValue
  | StringValue string
  | GenerationValue Generation
  | OtherValue bytes

text \<open>
  A struct field of an object as \<^verbatim>\<open>reflect.Value.Field\<close> returns it: its value, got
  through an exported field or through an unexported one. \<^verbatim>\<open>reflect.Value.Interface\<close>
  returns the value of the first and panics on the second.
\<close>

datatype reflect_Value = ExportedField fvalue | UnexportedField fvalue

definition Interface :: "reflect_Value \<Rightarrow> failure + fvalue" where
  "Interface f =
     (case f of
        ExportedField value \<Rightarrow> Inr value
      | UnexportedField value \<Rightarrow>
          Inl (Panic ''reflect.Value.Interface: cannot return value obtained from unexported field or method''))"

text \<open>
  A \<^verbatim>\<open>runtime.Storable\<close> (and \<^verbatim>\<open>runtime.Versioned\<close>) object: what its interface methods
  return, and its struct fields in declaration order, as reflection
  (\<^verbatim>\<open>reflect.ValueOf(storable).Field(i)\<close>) reads them. \<^verbatim>\<open>reflect.DeepEqual\<close> of two objects
  of one kind is equality of these records: it compares every field, exported or not,
  the generation among them.
\<close>

record storable =
  GetNamespace :: string
  GetKind :: Kind
  GetName :: string
  GetGeneration :: Generation
  fieldValues :: "reflect_Value list"

definition SetGeneration :: "storable \<Rightarrow> Generation \<Rightarrow> storable" where
  "SetGeneration obj gen = obj\<lparr>GetGeneration := gen\<rparr>"

text \<open>
  Modelled from the spec: \<^verbatim>\<open>runtime.KeyForStorable\<close>; "a key is
  \<^verbatim>\<open>namespace/kind/name\<close>" (spec 3).
\<close>

definition KeyForStorable :: "storable \<Rightarrow> Key" where
  "KeyForStorable obj = GetNamespace obj @ ''/'' @ GetKind obj @ ''/'' @ GetName obj"

text \<open>
  Go types as reflection sees them: a struct type with its fields (name and the
  \<^verbatim>\<open>store\<close> tag of each), pointers, slices, and everything else.
\<close>

datatype rtype =
    StructType string "(string \<times> string) list"
  | PtrTo rtype
  | SliceOf rtype
  | BasicType string

text \<open>
  \<^verbatim>\<open>runtime.TypeInfo\<close>: the kind, whether it is versioned, the object \<^verbatim>\<open>New()\<close> returns
  and its type (\<^verbatim>\<open>reflect.TypeOf(info.New())\<close>), and the value transforms of indexed
  fields.
\<close>

record TypeInfo =
  TypeInfo_Kind :: Kind
  Versioned :: bool
  New :: storable
  New_type :: rtype
  IndexValueTransforms :: "string \<rightharpoonup> (fvalue \<Rightarrow> fvalue)"

section \<open>Package store: indexes\<close>

definition LastGenIndex :: string where
  "LastGenIndex = []"

datatype IndexType = IndexTypeUndef | IndexTypeLastGen | IndexTypeListGen

text \<open>
  \<^verbatim>\<open>Index\<close>. The \<^verbatim>\<open>ValueTransform\<close> of the last-generation index is the \<^verbatim>\<open>nil\<close> function
  of the struct literal \<^verbatim>\<open>&Index{Type: IndexTypeLastGen}\<close>: \<^const>\<open>None\<close>.
\<close>

record Index =
  Type :: IndexType
  Field :: string
  ValueTransform :: "(fvalue \<Rightarrow> fvalue) option"
  rFieldID :: nat

text \<open>
  \<^verbatim>\<open>Indexes.List\<close> is a Go map from index name to index. It is an association list
  here, updated with \<^const>\<open>AList.update\<close> (a second entry under one name replaces the
  first) and read with \<^const>\<open>map_of\<close>; \<^verbatim>\<open>range indexes.List\<close> visits it in list order,
  where Go leaves the order unspecified.
\<close>

type_synonym Indexes = "(string \<times> Index) list"

definition IndexType_String :: "IndexType \<Rightarrow> failure + string" where
  "IndexType_String indexType =
     (case indexType of
        IndexTypeLastGen \<Rightarrow> Inr ''lastgen''
      | IndexTypeListGen \<Rightarrow> Inr ''listgen''
      | IndexTypeUndef \<Rightarrow> Inl (Panic ''unknown index type''))"

definition noopValueTransform :: "fvalue \<Rightarrow> fvalue" where
  "noopValueTransform val = val"

text \<open>\<^verbatim>\<open>strings.Contains\<close> of the Go standard library.\<close>

fun strings_Contains :: "string \<Rightarrow> string \<Rightarrow> bool" where
  "strings_Contains [] substr = (substr = [])"
| "strings_Contains (c # cs) substr =
     (take (length substr) (c # cs) = substr \<or> strings_Contains cs substr)"

text \<open>
  The loop of \<^verbatim>\<open>IndexesFor\<close> over the struct fields, \<open>i\<close> the position of the first
  field of the list.
\<close>

fun IndexesFor_fields :: "TypeInfo \<Rightarrow> nat \<Rightarrow> (string \<times> string) list \<Rightarrow> Indexes \<Rightarrow> Indexes" where
  "IndexesFor_fields info i [] indexes = indexes"
| "IndexesFor_fields info i ((name, tag) # fs) indexes =
     IndexesFor_fields info (i + 1) fs
       (if strings_Contains tag ''index'' then
          AList.update name
            \<lparr>Type = IndexTypeListGen, Field = name,
             ValueTransform =
               Some (case IndexValueTransforms info name of
                       None \<Rightarrow> noopValueTransform
                     | Some transformer \<Rightarrow> transformer),
             rFieldID = i\<rparr> indexes
        else indexes)"

text \<open>
  The package variable \<^verbatim>\<open>indexCache\<close>: the indexes of the kinds \<^verbatim>\<open>IndexesFor\<close> has been
  called for. (\<^verbatim>\<open>indexCacheMu\<close> serialises the calls; a deferred \<^verbatim>\<open>Unlock\<close> releases it
  also when the call panics.)
\<close>

type_synonym indexCache = "Kind \<rightharpoonup> Indexes"

text \<open>
  The block of \<^verbatim>\<open>IndexesFor\<close> for a kind that is not in the cache. The new \<^verbatim>\<open>Indexes\<close> is
  put into the cache first and filled afterwards, through the pointer; \<^verbatim>\<open>t.NumField()\<close>
  panics when the type (behind one pointer) is not a struct. The result is the
  \<^verbatim>\<open>Indexes\<close> as the block leaves it, in the cache, and the panic, if any: after a panic
  the cache keeps the entry that holds at most the last-generation index.
\<close>

definition IndexesFor_build :: "TypeInfo \<Rightarrow> Indexes \<times> failure option" where
  "IndexesFor_build info =
     (let indexes =
            (if Versioned info then
               [(LastGenIndex,
                 \<lparr>Type = IndexTypeLastGen, Field = [], ValueTransform = None, rFieldID = 0\<rparr>)]
             else []);
          t = (case New_type info of PtrTo elem \<Rightarrow> elem | other \<Rightarrow> other) in
      case t of
        StructType _ fs \<Rightarrow> (IndexesFor_fields info 0 fs indexes, None)
      | _ \<Rightarrow> (indexes, Some (Panic ''reflect: NumField of non-struct type'')))"

text \<open>
  \<^verbatim>\<open>IndexesFor\<close>: the entry of the cache for \<^verbatim>\<open>info.Kind\<close> when there is one, whoever put it
  there and however far its construction got; otherwise the block above. The result is
  the cache afterwards and what the call returns.
\<close>

definition IndexesFor :: "indexCache \<Rightarrow> TypeInfo \<Rightarrow> indexCache \<times> (failure + Indexes)" where
  "IndexesFor cache info =
     (case cache (TypeInfo_Kind info) of
        Some indexes \<Rightarrow> (cache, Inr indexes)
      | None \<Rightarrow>
          (case IndexesFor_build info of
             (indexes, None) \<Rightarrow> (cache(TypeInfo_Kind info \<mapsto> indexes), Inr indexes)
           | (indexes, Some e) \<Rightarrow> (cache(TypeInfo_Kind info \<mapsto> indexes), Inl e)))"

text \<open>\<^verbatim>\<open>Index.NameForValue\<close>.\<close>

definition Index_NameForValue :: "Index \<Rightarrow> Key \<Rightarrow> fvalue \<Rightarrow> failure + string" where
  "Index_NameForValue index key value =
     (case IndexType_String (Type index) of
        Inl e \<Rightarrow> Inl e
      | Inr typeName \<Rightarrow>
          (let key = typeName @ ''/'' @ key in
           if Type index = IndexTypeLastGen then Inr key
           else
             (case ValueTransform index of
                None \<Rightarrow> Inl (Panic ''invalid memory address or nil pointer dereference'')
              | Some transform \<Rightarrow>
                  (case transform value of
                     NilValue \<Rightarrow> Inr []
                   | StringValue valueStr \<Rightarrow> Inr (key @ ''/'' @ Field index @ ''='' @ valueStr)
                   | GenerationValue valueGen \<Rightarrow>
                       Inr (key @ ''/'' @ Field index @ ''='' @ Generation_String valueGen)
                   | OtherValue data \<Rightarrow> Inr (key @ ''/'' @ Field index @ ''='' @ data)))))"

text \<open>
  \<^verbatim>\<open>Index.NameForStorable\<close>; \<^verbatim>\<open>t.Field(index.rFieldID)\<close> panics when the object has no
  field of that number, and \<^verbatim>\<open>f.Interface()\<close> panics when the field is not exported
  (\<^verbatim>\<open>IndexesFor\<close> does not check that an indexed field is accessible).
\<close>

definition Index_NameForStorable :: "Index \<Rightarrow> storable \<Rightarrow> failure + string" where
  "Index_NameForStorable index obj =
     (let key = KeyForStorable obj in
      if Type index = IndexTypeLastGen then Index_NameForValue index key NilValue
      else if rFieldID index < length (fieldValues obj) then
        (case Interface (fieldValues obj ! rFieldID index) of
           Inl e \<Rightarrow> Inl e
         | Inr value \<Rightarrow> Index_NameForValue index key value)
      else Inl (Panic ''reflect: Field index out of range''))"

text \<open>\<^verbatim>\<open>Indexes.NameForStorable\<close>.\<close>

definition Indexes_NameForStorable :: "Indexes \<Rightarrow> string \<Rightarrow> storable \<Rightarrow> failure + string" where
  "Indexes_NameForStorable indexes indexName obj =
     (case map_of indexes indexName of
        Some index \<Rightarrow> Index_NameForStorable index obj
      | None \<Rightarrow> Inl (Panic ''trying to access non-existing indexName''))"

section \<open>Package etcd: the store\<close>

text \<open>
  Modelled from the spec: the codec behind \<^verbatim>\<open>s.marshal\<close> and \<^verbatim>\<open>s.unmarshal\<close>, and
  \<^verbatim>\<open>s.marshalGen\<close> and \<^verbatim>\<open>s.unmarshalGen\<close> (methods of \<^verbatim>\<open>etcdStore\<close> that are not part
  of the sources at hand). The spec (section 8) requires \<^verbatim>\<open>Unmarshal(Marshal(o)) == o\<close>,
  so the marshaled form of an object or of an \<^verbatim>\<open>IndexValueList\<close> is represented by
  the value it decodes to; it is never the empty string. A generation is marshaled as
  its decimal digits ("native stringification for strings and generations", spec 4.3).
  \<^verbatim>\<open>s.unmarshal\<close> and \<^verbatim>\<open>s.unmarshalGen\<close> return no error to \<^verbatim>\<open>Save\<close>: on data of the wrong
  form they panic.

  A stored value is therefore raw text, a marshaled object or a marshaled list.
  \<^verbatim>\<open>stm.Get\<close> returns the empty string for a key that is not in the store: \<open>Raw []\<close>.
\<close>

datatype blob = Raw string | ObjectData storable | ListData IndexValueList

definition marshalGen :: "Generation \<Rightarrow> string" where
  "marshalGen gen = Generation_String gen"

fun parse_digits :: "nat \<Rightarrow> string \<Rightarrow> nat option" where
  "parse_digits acc [] = Some acc"
| "parse_digits acc (c # cs) =
     (if 48 \<le> (of_char c :: nat) \<and> (of_char c :: nat) \<le> 57
      then parse_digits (acc * 10 + (of_char c - 48)) cs
      else None)"

definition unmarshalGen :: "blob \<Rightarrow> failure + Generation" where
  "unmarshalGen raw =
     (case raw of
        Raw s \<Rightarrow>
          (if s = [] then Inl (Panic ''error while unmarshaling generation'')
           else (case parse_digits 0 s of
                   None \<Rightarrow> Inl (Panic ''error while unmarshaling generation'')
                 | Some gen \<Rightarrow> Inr gen))
      | _ \<Rightarrow> Inl (Panic ''error while unmarshaling generation''))"

definition unmarshal_storable :: "blob \<Rightarrow> failure + storable" where
  "unmarshal_storable raw =
     (case raw of
        ObjectData obj \<Rightarrow> Inr obj
      | _ \<Rightarrow> Inl (Panic ''error while unmarshaling object''))"

definition unmarshal_IndexValueList :: "blob \<Rightarrow> failure + IndexValueList" where
  "unmarshal_IndexValueList raw =
     (case raw of
        ListData valueList \<Rightarrow> Inr valueList
      | _ \<Rightarrow> Inl (Panic ''error while unmarshaling index value list''))"

text \<open>
  The contents of etcd, and of a transaction's view of it: \<^verbatim>\<open>stm.Get\<close> is application,
  \<^verbatim>\<open>stm.Put\<close> is function update. A transaction reads its own writes.

  The state \<^verbatim>\<open>Save\<close> and \<^verbatim>\<open>Find\<close> work on is passed as one record: the contents of etcd
  behind \<^verbatim>\<open>s.client\<close>, the registered types \<^verbatim>\<open>s.types\<close>, and the package variable
  \<^verbatim>\<open>indexCache\<close> of package \<^verbatim>\<open>store\<close>, which is not a field of the struct \<^verbatim>\<open>etcdStore\<close> but
  the one cache of the process: it may hold entries made for any store of the process,
  so no statement below takes it to be empty or made from \<^verbatim>\<open>s.types\<close> without saying so.
\<close>

type_synonym stm = "string \<Rightarrow> blob"

record etcdStore =
  client :: stm
  types :: "Kind \<rightharpoonup> TypeInfo"
  indexCache :: indexCache

text \<open>
  \<^verbatim>\<open>store.SaveOpt\<close>, \<^verbatim>\<open>store.NewSaveOpts\<close> and \<^verbatim>\<open>IsReplaceOrForceGen\<close> (package \<^verbatim>\<open>store\<close>, not
  part of the sources at hand): the one option \<^verbatim>\<open>Save\<close> asks about.
\<close>

datatype SaveOpt = WithReplaceOrForceGen

definition IsReplaceOrForceGen :: "SaveOpt list \<Rightarrow> bool" where
  "IsReplaceOrForceGen opts = (WithReplaceOrForceGen \<in> set opts)"

text \<open>
  The body of the loop \<^verbatim>\<open>for _, index := range indexes.List\<close> at the end of the
  transaction of \<^verbatim>\<open>Save\<close>, for one index. \<^verbatim>\<open>Save\<close> calls \<^verbatim>\<open>Index.NameForStorable\<close>
  under the name \<^verbatim>\<open>KeyForStorable\<close>. The branch \<^verbatim>\<open>if prevObj != nil\<close> holds a comment
  only (\<^verbatim>\<open>// todo delete old obj from indexes\<close>).
\<close>

definition Save_index ::
  "Index \<Rightarrow> storable option \<Rightarrow> storable \<Rightarrow> Generation \<Rightarrow> stm \<Rightarrow> failure + stm" where
  "Save_index index prevObj newObj newGen stm =
     (case Index_NameForStorable index newObj of
        Inl e \<Rightarrow> Inl e
      | Inr name \<Rightarrow>
          (let indexKey = ''/index/'' @ name in
           if Type index = IndexTypeLastGen then
             Inr (stm(indexKey := Raw (marshalGen newGen)))
           else if Type index = IndexTypeListGen then
             (let stm = (if prevObj \<noteq> None then stm else stm);
                  valueListRaw = stm indexKey in
              case (if valueListRaw \<noteq> Raw [] then unmarshal_IndexValueList valueListRaw
                    else Inr []) of
                Inl e \<Rightarrow> Inl e
              | Inr valueList \<Rightarrow>
                  Inr (stm(indexKey := ListData (Add valueList (marshalGen newGen)))))
           else Inl (Panic ''only indexes with types store.IndexTypeLastGen and store.IndexTypeListGen are currently supported by Etcd store'')))"

text \<open>The loop itself: it stops at the first failure.\<close>

fun Save_indexes ::
  "Index list \<Rightarrow> storable option \<Rightarrow> storable \<Rightarrow> Generation \<Rightarrow> stm \<Rightarrow> failure + stm" where
  "Save_indexes [] prevObj newObj newGen stm = Inr stm"
| "Save_indexes (index # rest) prevObj newObj newGen stm =
     (case Save_index index prevObj newObj newGen stm of
        Inl e \<Rightarrow> Inl e
      | Inr stm' \<Rightarrow> Save_indexes rest prevObj newObj newGen stm')"

text \<open>
  The second half of the transaction: marshal the object, put it under
  \<^verbatim>\<open>/object<key>@<gen>\<close>, then update the indexes.
\<close>

definition Save_write :: "Indexes \<Rightarrow> string \<Rightarrow> storable option \<Rightarrow> stm \<Rightarrow> storable \<Rightarrow> failure + stm" where
  "Save_write indexes key prevObj stm newObj =
     (let newGen = GetGeneration newObj in
      Save_indexes (map snd indexes) prevObj newObj newGen
        (stm(''/object'' @ key @ ''@'' @ Generation_String newGen := ObjectData newObj)))"

text \<open>
  The function given to \<^verbatim>\<open>etcdconc.NewSTM\<close>. It returns the transaction's writes or the
  failure, and the object, whose generation \<^verbatim>\<open>SetGeneration\<close> changes in place, whatever
  happens to the transaction afterwards. In the branch of \<^verbatim>\<open>replaceOrForceGen\<close> the
  source declares a second \<^verbatim>\<open>prevObj\<close> with \<^verbatim>\<open>:=\<close>, so the outer one stays \<^verbatim>\<open>nil\<close>.
\<close>

definition Save_apply ::
  "Indexes \<Rightarrow> string \<Rightarrow> bool \<Rightarrow> stm \<Rightarrow> storable \<Rightarrow> (failure + stm) \<times> storable" where
  "Save_apply indexes key replaceOrForceGen stm newObj =
     (if replaceOrForceGen then
        (let newGen = GetGeneration newObj in
         if newGen = LastOrEmptyGen then
           (Inl (Error ''error while saving object with replaceOrForceGen option but with empty generation''),
            newObj)
         else
           (let oldObjRaw = stm (''/object'' @ key @ ''@'' @ Generation_String newGen) in
            case (if oldObjRaw \<noteq> Raw [] then map_sum id Some (unmarshal_storable oldObjRaw)
                  else Inr None) of
              Inl e \<Rightarrow> (Inl e, newObj)
            | Inr shadowedPrevObj \<Rightarrow> (Save_write indexes key None stm newObj, newObj)))
      else
        (case Indexes_NameForStorable indexes LastGenIndex newObj of
           Inl e \<Rightarrow> (Inl e, newObj)
         | Inr name \<Rightarrow>
             (let lastGenRaw = stm (''/index/'' @ name) in
              if lastGenRaw = Raw [] then
                (let newObj = SetGeneration newObj FirstGen in
                 (Save_write indexes key None stm newObj, newObj))
              else
                (case unmarshalGen lastGenRaw of
                   Inl e \<Rightarrow> (Inl e, newObj)
                 | Inr lastGen \<Rightarrow>
                     (let oldObjRaw = stm (''/object'' @ key @ ''@'' @ Generation_String lastGen) in
                      if oldObjRaw = Raw [] then
                        (Inl (Error ''last gen index seems to be corrupted: generation doesn't exist''),
                         newObj)
                      else
                        (case unmarshal_storable oldObjRaw of
                           Inl e \<Rightarrow> (Inl e, newObj)
                         | Inr prevObj \<Rightarrow>
                             if prevObj \<noteq> newObj then
                               (let newObj = SetGeneration newObj (Next lastGen) in
                                (Save_write indexes key (Some prevObj) stm newObj, newObj))
                             else (Inr stm, SetGeneration newObj lastGen)))))))"

text \<open>
  \<^verbatim>\<open>etcdStore.Save\<close>. The result is the state afterwards, the object afterwards and the
  failure, if any. A transaction that fails writes nothing; what \<^verbatim>\<open>IndexesFor\<close> has put
  into the cache stays there whatever happens next. \<^verbatim>\<open>s.types.Get\<close> (not part of the
  sources at hand) panics for a kind that is not registered. The single \<^verbatim>\<open>Put\<close> of a
  non-versioned object and the commit of the transaction are taken to succeed: the
  store is reachable and, as the spec assumes, there is one writer.
\<close>

fun Save ::
  "etcdStore \<Rightarrow> storable option \<Rightarrow> SaveOpt list \<Rightarrow> etcdStore \<times> storable option \<times> failure option" where
  "Save s None opts = (s, None, Some (Error ''can't save nil''))"
| "Save s (Some newStorable) opts =
     (case types s (GetKind newStorable) of
        None \<Rightarrow> (s, Some newStorable, Some (Panic ''unknown kind''))
      | Some info \<Rightarrow>
          (case IndexesFor (indexCache s) info of
             (cache, Inl e) \<Rightarrow> (s\<lparr>indexCache := cache\<rparr>, Some newStorable, Some e)
           | (cache, Inr indexes) \<Rightarrow>
               (let s = s\<lparr>indexCache := cache\<rparr>;
                    key = ''/'' @ KeyForStorable newStorable in
                if \<not> Versioned info then
                  (s\<lparr>client := (client s)
                       (''/object'' @ key @ ''@'' @ Generation_String LastOrEmptyGen :=
                          ObjectData newStorable)\<rparr>,
                   Some newStorable, None)
                else
                  (case Save_apply indexes key (IsReplaceOrForceGen opts) (client s) newStorable of
                     (Inl e, newObj) \<Rightarrow> (s, Some newObj, Some e)
                   | (Inr stm, newObj) \<Rightarrow> (s\<lparr>client := stm\<rparr>, Some newObj, None)))))"

section \<open>Package etcd: Find\<close>

text \<open>
  \<^verbatim>\<open>store.FindOpts\<close> (not part of the sources at hand): what \<^verbatim>\<open>GetKeyPrefix\<close>, \<^verbatim>\<open>GetKey\<close> and
  \<^verbatim>\<open>GetFieldEqName\<close> return.
\<close>

record FindOpts =
  GetKeyPrefix :: string
  GetKey :: Key
  GetFieldEqName :: string

text \<open>
  The \<^verbatim>\<open>result\<close> argument of \<^verbatim>\<open>Find\<close>: its type as \<^verbatim>\<open>reflect.TypeOf(result)\<close> gives it, and
  the objects it holds.
\<close>

record find_result =
  result_type :: rtype
  result_elems :: "storable list"

text \<open>How \<^verbatim>\<open>fmt\<close> prints a type with \<^verbatim>\<open>%s\<close>.\<close>

fun rtype_String :: "rtype \<Rightarrow> string" where
  "rtype_String (StructType name fs) = name"
| "rtype_String (PtrTo t) = ''*'' @ rtype_String t"
| "rtype_String (SliceOf t) = ''[]'' @ rtype_String t"
| "rtype_String (BasicType name) = name"

text \<open>
  Adding an element to the result, as the callbacks of \<^verbatim>\<open>Find\<close> do with
  \<^verbatim>\<open>v.Set(reflect.Append(v, reflect.ValueOf(elem)))\<close>, where \<open>v\<close> is what the result points
  to and \<open>vt\<close> its type: \<^verbatim>\<open>reflect.Append\<close> panics unless \<open>v\<close> is a slice whose element type
  is the type of the element.
\<close>

definition appendToResult :: "rtype \<Rightarrow> TypeInfo \<Rightarrow> find_result \<Rightarrow> failure + find_result" where
  "appendToResult vt info result =
     (case vt of
        SliceOf elemType \<Rightarrow>
          if elemType = New_type info then
            Inr (result\<lparr>result_elems := result_elems result @ [New info]\<rparr>)
          else Inl (Panic ''reflect.Append: value is not assignable to the element type'')
      | _ \<Rightarrow> Inl (Panic ''reflect: call of reflect.Append on a value that is not a slice''))"

text \<open>
  The three finders are stubs in the source: \<^verbatim>\<open>findByKeyPrefix\<close> and \<^verbatim>\<open>findByKey\<close> return
  \<^verbatim>\<open>nil\<close> and never call their callback, \<^verbatim>\<open>findByPredicate\<close> adds \<^verbatim>\<open>info.New()\<close> to the
  result twice. None of them reads the store.
\<close>

definition findByKeyPrefix :: "FindOpts \<Rightarrow> TypeInfo \<Rightarrow> rtype \<Rightarrow> find_result \<Rightarrow> failure + find_result" where
  "findByKeyPrefix opts info vt result = Inr result"

definition findByKey :: "FindOpts \<Rightarrow> TypeInfo \<Rightarrow> rtype \<Rightarrow> find_result \<Rightarrow> failure + find_result" where
  "findByKey opts info vt result = Inr result"

definition findByPredicate :: "FindOpts \<Rightarrow> TypeInfo \<Rightarrow> rtype \<Rightarrow> find_result \<Rightarrow> failure + find_result" where
  "findByPredicate opts info vt result =
     (case appendToResult vt info result of
        Inl e \<Rightarrow> Inl e
      | Inr result' \<Rightarrow> appendToResult vt info result')"

text \<open>
  \<^verbatim>\<open>etcdStore.Find\<close>: the failure, if any, and the result afterwards. The type of the result
  is checked first: it is the type of \<^verbatim>\<open>info.New()\<close>, or a pointer to a slice of that type
  (then \<^verbatim>\<open>resultList\<close> is set), or \<^verbatim>\<open>Find\<close> returns an error. \<^verbatim>\<open>reflect.ValueOf(result).Elem()\<close>
  panics when the result is not a pointer. \<^verbatim>\<open>s.types.Get\<close> panics for a kind that is not
  registered. The two \<^verbatim>\<open>fmt.Println\<close> of the source print to the console only.
\<close>

definition Find :: "etcdStore \<Rightarrow> Kind \<Rightarrow> find_result \<Rightarrow> FindOpts \<Rightarrow> failure option \<times> find_result" where
  "Find s kind result findOpts =
     (case types s kind of
        None \<Rightarrow> (Some (Panic ''unknown kind''), result)
      | Some info \<Rightarrow>
          (let resultTypeSingle = New_type info;
               resultTypeList = PtrTo (SliceOf resultTypeSingle);
               resultType = result_type result in
           case (if resultType = resultTypeSingle then Inr False
                 else if resultType = resultTypeList then Inr True
                 else Inl (Error (''result should be '' @ rtype_String resultTypeSingle
                                  @ '' or '' @ rtype_String resultTypeList
                                  @ '', but found: '' @ rtype_String resultType))) of
             Inl e \<Rightarrow> (Some e, result)
           | Inr resultList \<Rightarrow>
               (case resultType of
                  PtrTo vt \<Rightarrow>
                    (case (if GetKeyPrefix findOpts \<noteq> [] then
                             findByKeyPrefix findOpts info vt result
                           else if GetKey findOpts \<noteq> [] \<and> GetFieldEqName findOpts = [] then
                             findByKey findOpts info vt result
                           else findByPredicate findOpts info vt result) of
                       Inl e \<Rightarrow> (Some e, result)
                     | Inr result' \<Rightarrow> (None, result'))
                | _ \<Rightarrow> (Some (Panic ''reflect: call of reflect.Value.Elem on a value that is not a pointer''),
                        result))))"

section \<open>Package api: the policy handlers\<close>

text \<open>
  The handlers work on objects of the policy language (\<^verbatim>\<open>lang.Base\<close>), of which they use
  the kind only. Modelled from the spec: \<^verbatim>\<open>lang.TypeACLRule.Kind\<close> (package \<^verbatim>\<open>lang\<close> is not
  part of the sources at hand), the kind of ACL rule objects.
\<close>

type_synonym lang_Base = storable

definition TypeACLRule_Kind :: Kind where
  "TypeACLRule_Kind = ''aclrule''"

record lang_User =
  User_Name :: string

text \<open>\<^verbatim>\<open>apiObjectSorter\<close>: \<^verbatim>\<open>Weight\<close> and \<^verbatim>\<open>Less\<close>; \<^verbatim>\<open>sort.Reverse\<close> swaps the arguments of \<^verbatim>\<open>Less\<close>.\<close>

definition Weight :: "lang_Base \<Rightarrow> int" where
  "Weight obj = (if GetKind obj = TypeACLRule_Kind then 0 else 1)"

definition Less :: "lang_Base \<Rightarrow> lang_Base \<Rightarrow> bool" where
  "Less a b = (Weight a < Weight b)"

definition sort_Reverse :: "('a \<Rightarrow> 'a \<Rightarrow> bool) \<Rightarrow> 'a \<Rightarrow> 'a \<Rightarrow> bool" where
  "sort_Reverse lt a b = lt b a"

text \<open>
  What \<^verbatim>\<open>sort.Sort\<close> of the Go standard library guarantees of its result for an order
  \<open>lt\<close>: the same elements, and no element before one that is less than it. The
  sort is not stable.
\<close>

definition sorted_by :: "('a \<Rightarrow> 'a \<Rightarrow> bool) \<Rightarrow> 'a list \<Rightarrow> 'a list \<Rightarrow> bool" where
  "sorted_by lt xs ys = (mset ys = mset xs \<and> sorted_wrt (\<lambda>a b. \<not> lt b a) ys)"

text \<open>\<^verbatim>\<open>strconv.ParseBool\<close> of the Go standard library.\<close>

definition strconv_ParseBool :: "string \<Rightarrow> bool option" where
  "strconv_ParseBool str =
     (if str \<in> set [''1'', ''t'', ''T'', ''TRUE'', ''true'', ''True''] then Some True
      else if str \<in> set [''0'', ''f'', ''F'', ''FALSE'', ''false'', ''False''] then Some False
      else None)"

text \<open>The log levels of \<^verbatim>\<open>logrus\<close>.\<close>

datatype Level = PanicLevel | FatalLevel | ErrorLevel | WarnLevel | InfoLevel | DebugLevel

text \<open>\<^verbatim>\<open>PolicyUpdateResult\<close>; the plan as text and the events are strings here.\<close>

record PolicyUpdateResult =
  PolicyGeneration :: Generation
  PolicyChanged :: bool
  WaitForRevision :: Generation
  PlanAsText :: string
  EventLog :: "string list"

text \<open>
  What \<^verbatim>\<open>coreAPI\<close> calls and the sources at hand do not contain: the registry
  (\<^verbatim>\<open>api.registry\<close>, with its state \<open>'reg\<close> passed in and out of the calls that write),
  the policy container \<open>'pol\<close> (\<^verbatim>\<open>lang.Policy\<close>), the resolver and the desired state \<open>'ds\<close>
  (\<^verbatim>\<open>resolve.PolicyResolution\<close>), the diff and its action plan \<open>'plan\<close>, the cluster
  plugins, \<^verbatim>\<open>logrus.ParseLevel\<close> and \<^verbatim>\<open>sort.Sort\<close>. A call that returns an \<^verbatim>\<open>error\<close> returns
  its message on the left. \<^verbatim>\<open>policy.View(user).ManageObject(obj)\<close> is \<open>ManageObject\<close> of
  the policy, the user and the object. The resolver returns the desired state and the
  events it wrote to the event log, as \<^verbatim>\<open>eventLog.AsAPIEvents()\<close> gives them;
  \<open>AsText\<close> is \<^verbatim>\<open>actionPlan.AsText()\<close>.
\<close>

record ('reg, 'pol, 'rev, 'ds, 'plan) coreAPI =
  GetPolicy :: "'reg \<Rightarrow> Generation \<Rightarrow> string + ('pol \<times> Generation)"
  GetLastRevisionForPolicy :: "'reg \<Rightarrow> Generation \<Rightarrow> string + 'rev"
  GetDesiredState :: "'reg \<Rightarrow> 'rev \<Rightarrow> string + 'ds"
  UpdatePolicy :: "'reg \<Rightarrow> lang_Base list \<Rightarrow> string \<Rightarrow> 'reg \<times> (string + (bool \<times> Generation))"
  DeleteFromPolicy :: "'reg \<Rightarrow> lang_Base list \<Rightarrow> string \<Rightarrow> 'reg \<times> (string + (bool \<times> Generation))"
  NewRevision :: "'reg \<Rightarrow> Generation \<Rightarrow> 'ds \<Rightarrow> bool \<Rightarrow> 'reg \<times> (string + Generation)"
  ManageObject :: "'pol \<Rightarrow> lang_User \<Rightarrow> lang_Base \<Rightarrow> string option"
  AddObject :: "'pol \<Rightarrow> lang_Base \<Rightarrow> string + 'pol"
  RemoveObject :: "'pol \<Rightarrow> lang_Base \<Rightarrow> 'pol"
  Validate :: "'pol \<Rightarrow> string option"
  isCluster :: "lang_Base \<Rightarrow> bool"
  ForCluster :: "lang_Base \<Rightarrow> string option"
  plugin_Validate :: "lang_Base \<Rightarrow> string option"
  ParseLevel :: "string \<Rightarrow> Level option"
  ResolveAllClaims :: "'pol \<Rightarrow> Level \<Rightarrow> string \<Rightarrow> 'ds \<times> string list"
  resolution_Validate :: "'ds \<Rightarrow> 'pol \<Rightarrow> string option"
  NewPolicyResolutionDiff :: "'ds \<Rightarrow> 'ds \<Rightarrow> 'plan"
  AsText :: "'plan \<Rightarrow> string"
  sort_Sort :: "(lang_Base \<Rightarrow> lang_Base \<Rightarrow> bool) \<Rightarrow> lang_Base list \<Rightarrow> lang_Base list"

text \<open>
  The loop of \<^verbatim>\<open>handlePolicyUpdate\<close> that adds the objects to the copy of the policy: each
  object is checked with \<^verbatim>\<open>ManageObject\<close> against the policy as it is at that moment, then
  added; the first error panics.
\<close>

fun update_objects ::
  "('reg, 'pol, 'rev, 'ds, 'plan) coreAPI \<Rightarrow> lang_User \<Rightarrow> 'pol \<Rightarrow> lang_Base list \<Rightarrow> failure + 'pol" where
  "update_objects api user policyUpdated [] = Inr policyUpdated"
| "update_objects api user policyUpdated (obj # objects) =
     (case ManageObject api policyUpdated user obj of
        Some errManage \<Rightarrow>
          Inl (Panic (''error while adding updated object to policy: '' @ errManage))
      | None \<Rightarrow>
          (case AddObject api policyUpdated obj of
             Inl errAdd \<Rightarrow> Inl (Panic (''error while adding updated object to policy: '' @ errAdd))
           | Inr policyUpdated' \<Rightarrow> update_objects api user policyUpdated' objects))"

text \<open>The loop of \<^verbatim>\<open>handlePolicyDelete\<close> that removes the objects.\<close>

fun delete_objects ::
  "('reg, 'pol, 'rev, 'ds, 'plan) coreAPI \<Rightarrow> lang_User \<Rightarrow> 'pol \<Rightarrow> lang_Base list \<Rightarrow> failure + 'pol" where
  "delete_objects api user policyUpdated [] = Inr policyUpdated"
| "delete_objects api user policyUpdated (obj # objects) =
     (case ManageObject api policyUpdated user obj of
        Some errManage \<Rightarrow>
          Inl (Panic (''Error while removing object from policy: '' @ errManage))
      | None \<Rightarrow> delete_objects api user (RemoveObject api policyUpdated obj) objects)"

text \<open>
  The loop of \<^verbatim>\<open>handlePolicyUpdate\<close> over the clusters among the objects: the plugin of the
  cluster is looked up and asked to validate.
\<close>

fun validate_clusters ::
  "('reg, 'pol, 'rev, 'ds, 'plan) coreAPI \<Rightarrow> lang_Base list \<Rightarrow> failure option" where
  "validate_clusters api [] = None"
| "validate_clusters api (obj # objects) =
     (if isCluster api obj then
        (case ForCluster api obj of
           Some pluginErr \<Rightarrow> Some (Panic (''error while getting cluster plugin for cluster: '' @ pluginErr))
         | None \<Rightarrow>
             (case plugin_Validate api obj of
                Some valErr \<Rightarrow> Some (Panic (''error while validating cluster: '' @ valErr))
              | None \<Rightarrow> validate_clusters api objects))
      else validate_clusters api objects)"

text \<open>
  What a handler has computed when it reaches the test of the \<^verbatim>\<open>noop\<close> flag: the sorted
  objects, the generation of the latest policy, the new desired state, the action plan,
  the events and the flag. Nothing has been written so far.
\<close>

record ('ds, 'plan) prepared =
  prep_objects :: "lang_Base list"
  prep_policyGen :: Generation
  prep_desiredStateUpdated :: 'ds
  prep_actionPlan :: 'plan
  prep_events :: "string list"
  prep_noop :: bool

text \<open>
  The part shared by both handlers after the objects are merged into the copy of the
  policy and the copy is validated: the \<^verbatim>\<open>noop\<close> flag (\<^verbatim>\<open>false\<close> when it does not parse), the
  log level (\<^verbatim>\<open>WarnLevel\<close> when it does not parse), the resolution and its validation, and
  the diff against the previous desired state.
\<close>

definition resolve_and_diff ::
  "('reg, 'pol, 'rev, 'ds, 'plan) coreAPI \<Rightarrow> (string \<Rightarrow> string) \<Rightarrow> string \<Rightarrow> lang_Base list
   \<Rightarrow> Generation \<Rightarrow> 'ds \<Rightarrow> 'pol \<Rightarrow> failure + ('ds, 'plan) prepared" where
  "resolve_and_diff api params logName objects policyGen desiredState policyUpdated =
     (let noop = (case strconv_ParseBool (params ''noop'') of Some b \<Rightarrow> b | None \<Rightarrow> False);
          logLevel = (case ParseLevel api (params ''loglevel'') of
                        Some l \<Rightarrow> l | None \<Rightarrow> WarnLevel);
          (desiredStateUpdated, events) = ResolveAllClaims api policyUpdated logLevel logName in
      case resolution_Validate api desiredStateUpdated policyUpdated of
        Some err \<Rightarrow> Inl (Panic (''policy change cannon be made: '' @ err))
      | None \<Rightarrow>
          Inr \<lparr>prep_objects = objects, prep_policyGen = policyGen,
               prep_desiredStateUpdated = desiredStateUpdated,
               prep_actionPlan = NewPolicyResolutionDiff api desiredStateUpdated desiredState,
               prep_events = events, prep_noop = noop\<rparr>)"

text \<open>
  The start of both handlers: the latest policy generation, its last revision, the
  desired state of that revision, and a copy of the policy to change.
\<close>

definition load_latest ::
  "('reg, 'pol, 'rev, 'ds, 'plan) coreAPI \<Rightarrow> 'reg \<Rightarrow> failure + (Generation \<times> 'ds \<times> 'pol)" where
  "load_latest api reg =
     (case GetPolicy api reg LastOrEmptyGen of
        Inl err \<Rightarrow> Inl (Panic (''error while loading current policy: '' @ err))
      | Inr (_, policyGen) \<Rightarrow>
          (case GetLastRevisionForPolicy api reg policyGen of
             Inl err \<Rightarrow>
               Inl (Panic (''error while loading latest revision from the registry: '' @ err))
           | Inr revision \<Rightarrow>
               (case GetDesiredState api reg revision of
                  Inl err \<Rightarrow> Inl (Panic (''can't load desired state from revision: '' @ err))
                | Inr desiredState \<Rightarrow>
                    (case GetPolicy api reg policyGen of
                       Inl err \<Rightarrow> Inl (Panic (''error while loading current policy: '' @ err))
                     | Inr (policyUpdated, _) \<Rightarrow> Inr (policyGen, desiredState, policyUpdated)))))"

text \<open>
  \<^verbatim>\<open>handlePolicyUpdate\<close> up to the test of the \<^verbatim>\<open>noop\<close> flag. The objects are sorted in place
  with \<^verbatim>\<open>sort.Sort(apiObjectSorter(objects))\<close> and used in that order from then on.
\<close>

definition handlePolicyUpdate_prepare ::
  "('reg, 'pol, 'rev, 'ds, 'plan) coreAPI \<Rightarrow> 'reg \<Rightarrow> lang_Base list \<Rightarrow> lang_User
   \<Rightarrow> (string \<Rightarrow> string) \<Rightarrow> failure + ('ds, 'plan) prepared" where
  "handlePolicyUpdate_prepare api reg objects user params =
     (case load_latest api reg of
        Inl e \<Rightarrow> Inl e
      | Inr (policyGen, desiredState, policyUpdated) \<Rightarrow>
          (let objects = sort_Sort api Less objects in
           case update_objects api user policyUpdated objects of
             Inl e \<Rightarrow> Inl e
           | Inr policyUpdated \<Rightarrow>
               (case Validate api policyUpdated of
                  Some err \<Rightarrow> Inl (Panic (''updated policy is invalid: '' @ err))
                | None \<Rightarrow>
                    (case validate_clusters api objects of
                       Some e \<Rightarrow> Inl e
                     | None \<Rightarrow>
                         resolve_and_diff api params ''api-policy-update'' objects policyGen
                           desiredState policyUpdated))))"

text \<open>
  \<^verbatim>\<open>handlePolicyDelete\<close> up to the test of the \<^verbatim>\<open>noop\<close> flag. The objects are sorted with
  \<^verbatim>\<open>sort.Sort(sort.Reverse(apiObjectSorter(objects)))\<close>.
\<close>

definition handlePolicyDelete_prepare ::
  "('reg, 'pol, 'rev, 'ds, 'plan) coreAPI \<Rightarrow> 'reg \<Rightarrow> lang_Base list \<Rightarrow> lang_User
   \<Rightarrow> (string \<Rightarrow> string) \<Rightarrow> failure + ('ds, 'plan) prepared" where
  "handlePolicyDelete_prepare api reg objects user params =
     (case load_latest api reg of
        Inl e \<Rightarrow> Inl e
      | Inr (policyGen, desiredState, policyUpdated) \<Rightarrow>
          (let objects = sort_Sort api (sort_Reverse Less) objects in
           case delete_objects api user policyUpdated objects of
             Inl e \<Rightarrow> Inl e
           | Inr policyUpdated \<Rightarrow>
               (case Validate api policyUpdated of
                  Some err \<Rightarrow> Inl (Panic (''Updated policy is invalid: '' @ err))
                | None \<Rightarrow>
                    resolve_and_diff api params ''api-policy-delete'' objects policyGen
                      desiredState policyUpdated)))"

text \<open>
  \<^verbatim>\<open>changePolicy\<close>: the registry afterwards, and \<^verbatim>\<open>changed\<close>, the policy generation and the
  revision to wait for, or the panic. The mutex it takes has no effect on one request.
\<close>

definition changePolicy ::
  "('reg, 'pol, 'rev, 'ds, 'plan) coreAPI \<Rightarrow> 'reg \<Rightarrow> lang_Base list \<Rightarrow> lang_User \<Rightarrow> 'ds \<Rightarrow> bool
   \<Rightarrow> 'reg \<times> (failure + (bool \<times> Generation \<times> Generation))" where
  "changePolicy api reg objects user desiredStateUpdated delete =
     (case (if delete then DeleteFromPolicy api reg objects (User_Name user)
            else UpdatePolicy api reg objects (User_Name user)) of
        (reg, Inl err) \<Rightarrow>
          (reg, Inl (Panic (''error while making changes to objects in the policy: '' @ err)))
      | (reg, Inr (changed, policyDataGen)) \<Rightarrow>
          if changed then
            (case NewRevision api reg policyDataGen desiredStateUpdated False of
               (reg, Inl newRevisionErr) \<Rightarrow>
                 (reg, Inl (Panic ''unable to create new revision for policy gen''))
             | (reg, Inr newRevisionGen) \<Rightarrow> (reg, Inr (changed, policyDataGen, newRevisionGen)))
          else (reg, Inr (changed, policyDataGen, MaxGeneration)))"

text \<open>
  The end of both handlers, from the test of the \<^verbatim>\<open>noop\<close> flag on. The result is the
  registry afterwards, the response written with \<^verbatim>\<open>WriteOne\<close> (or the panic), and whether
  \<^verbatim>\<open>true\<close> was sent on \<^verbatim>\<open>runDesiredStateEnforcement\<close>.
\<close>

definition respond ::
  "('reg, 'pol, 'rev, 'ds, 'plan) coreAPI \<Rightarrow> 'reg \<Rightarrow> lang_User \<Rightarrow> bool \<Rightarrow> ('ds, 'plan) prepared
   \<Rightarrow> 'reg \<times> (failure + PolicyUpdateResult) \<times> bool" where
  "respond api reg user delete prep =
     (if prep_noop prep then
        (reg,
         Inr \<lparr>PolicyGeneration = prep_policyGen prep,
              PolicyChanged = False,
              WaitForRevision = MaxGeneration,
              PlanAsText = AsText api (prep_actionPlan prep),
              EventLog = prep_events prep\<rparr>,
         False)
      else
        (case changePolicy api reg (prep_objects prep) user (prep_desiredStateUpdated prep) delete of
           (reg, Inl e) \<Rightarrow> (reg, Inl e, False)
         | (reg, Inr (changed, policyGen, revisionGen)) \<Rightarrow>
             (reg,
              Inr \<lparr>PolicyGeneration = policyGen,
                   PolicyChanged = changed,
                   WaitForRevision = revisionGen,
                   PlanAsText = AsText api (prep_actionPlan prep),
                   EventLog = prep_events prep\<rparr>,
              changed)))"

text \<open>
  \<^verbatim>\<open>handlePolicyUpdate\<close> and \<^verbatim>\<open>handlePolicyDelete\<close>. The objects are what \<^verbatim>\<open>api.readLang\<close> read
  from the request, the user what \<^verbatim>\<open>api.getUserRequired\<close> found (it panics when there is
  none), \<open>params\<close> is \<^verbatim>\<open>params.ByName\<close>.
\<close>

definition handlePolicyUpdate ::
  "('reg, 'pol, 'rev, 'ds, 'plan) coreAPI \<Rightarrow> 'reg \<Rightarrow> lang_Base list \<Rightarrow> lang_User option
   \<Rightarrow> (string \<Rightarrow> string) \<Rightarrow> 'reg \<times> (failure + PolicyUpdateResult) \<times> bool" where
  "handlePolicyUpdate api reg objects requestUser params =
     (case requestUser of
        None \<Rightarrow> (reg, Inl (Panic ''unauthorized or couldn't be loaded''), False)
      | Some user \<Rightarrow>
          (case handlePolicyUpdate_prepare api reg objects user params of
             Inl e \<Rightarrow> (reg, Inl e, False)
           | Inr prep \<Rightarrow> respond api reg user False prep))"

definition handlePolicyDelete ::
  "('reg, 'pol, 'rev, 'ds, 'plan) coreAPI \<Rightarrow> 'reg \<Rightarrow> lang_Base list \<Rightarrow> lang_User option
   \<Rightarrow> (string \<Rightarrow> string) \<Rightarrow> 'reg \<times> (failure + PolicyUpdateResult) \<times> bool" where
  "handlePolicyDelete api reg objects requestUser params =
     (case requestUser of
        None \<Rightarrow> (reg, Inl (Panic ''unauthorized or couldn't be loaded''), False)
      | Some user \<Rightarrow>
          (case handlePolicyDelete_prepare api reg objects user params of
             Inl e \<Rightarrow> (reg, Inl e, False)
           | Inr prep \<Rightarrow> respond api reg user True prep))"

section \<open>Package lang: loading the policy of the unit tests\<close>

text \<open>
  \<^verbatim>\<open>FileLoader.LoadObjects\<close> is in the sources at hand; the codec it calls
  (\<^verbatim>\<open>yaml.NewCodec\<close>, \<^verbatim>\<open>MarshalMany\<close>, \<^verbatim>\<open>UnmarshalOneOrMany\<close>) and the catalog
  (\<^verbatim>\<open>object.NewObjectCatalog\<close>) are not.

  Modelled from the spec: the codec and the catalog. The spec (sections 4.1 and 6)
  describes the encoding as "a key-value textual format with a top-level \<^verbatim>\<open>kind\<close>
  discriminator; sequences denoted by list syntax; map key ordering deterministic on
  serialization", with "sorted keys"; "\<^verbatim>\<open>omitempty\<close> semantics are not used (empty fields
  are preserved)"; "unknown kinds raise a \<^verbatim>\<open>UnknownKind\<close> failure", and the catalog is
  "keyed by kind". The encoded form is modelled as the document the text denotes:
  scalars, mappings from keys to documents, and sequences. An object is its kind and its
  fields in declaration order, each field a name and a document. The catalog gives the
  field names of each kind, as the struct that the kind's constructor returns has them.
\<close>

datatype node = Scalar string | Mapping "(string \<times> node) list" | Sequence "node list"

record object_Base =
  Base_Kind :: Kind
  Base_fields :: "(string \<times> node) list"

type_synonym ObjectCatalog = "Kind \<rightharpoonup> string list"

datatype codec_error = UnknownKind Kind | Malformed

text \<open>
  Sorting the entries of a mapping by key, with the byte order of strings: insertion into
  a sorted list, before the first entry with a greater key.
\<close>

fun insert_key :: "string \<times> node \<Rightarrow> (string \<times> node) list \<Rightarrow> (string \<times> node) list" where
  "insert_key kv [] = [kv]"
| "insert_key kv (kv' # rest) =
     (if bytes_Compare (fst kv) (fst kv') \<le> 0 then kv # kv' # rest
      else kv' # insert_key kv rest)"

definition sort_keys :: "(string \<times> node) list \<Rightarrow> (string \<times> node) list" where
  "sort_keys kvs = foldr insert_key kvs []"

text \<open>
  \<^verbatim>\<open>Marshal\<close>: the kind first, then every field, empty or not, with the keys sorted.
  \<^verbatim>\<open>MarshalMany\<close>: the sequence of the marshaled objects.
\<close>

definition Marshal :: "object_Base \<Rightarrow> node" where
  "Marshal obj = Mapping ((''kind'', Scalar (Base_Kind obj)) # sort_keys (Base_fields obj))"

definition MarshalMany :: "object_Base list \<Rightarrow> codec_error + node" where
  "MarshalMany objects = Inr (Sequence (map Marshal objects))"

text \<open>
  \<^verbatim>\<open>Unmarshal\<close> of one object: the kind is read from the key \<^verbatim>\<open>kind\<close> and looked up in the
  catalog; each field of the kind takes the document stored under its name, and stays
  empty when the mapping has no such key.
\<close>

definition Unmarshal :: "ObjectCatalog \<Rightarrow> node \<Rightarrow> codec_error + object_Base" where
  "Unmarshal catalog data =
     (case data of
        Mapping kvs \<Rightarrow>
          (case map_of kvs ''kind'' of
             Some (Scalar kind) \<Rightarrow>
               (case catalog kind of
                  None \<Rightarrow> Inl (UnknownKind kind)
                | Some names \<Rightarrow>
                    Inr \<lparr>Base_Kind = kind,
                         Base_fields =
                           map (\<lambda>name. (name, case map_of kvs name of
                                                 Some value \<Rightarrow> value
                                               | None \<Rightarrow> Scalar [])) names\<rparr>)
           | _ \<Rightarrow> Inl Malformed)
      | _ \<Rightarrow> Inl Malformed)"

fun Unmarshal_all :: "ObjectCatalog \<Rightarrow> node list \<Rightarrow> codec_error + object_Base list" where
  "Unmarshal_all catalog [] = Inr []"
| "Unmarshal_all catalog (data # rest) =
     (case Unmarshal catalog data of
        Inl e \<Rightarrow> Inl e
      | Inr obj \<Rightarrow>
          (case Unmarshal_all catalog rest of
             Inl e \<Rightarrow> Inl e
           | Inr objects \<Rightarrow> Inr (obj # objects)))"

text \<open>\<^verbatim>\<open>UnmarshalOneOrMany\<close>: a sequence gives its objects, a mapping gives one object.\<close>

definition UnmarshalOneOrMany :: "ObjectCatalog \<Rightarrow> node \<Rightarrow> codec_error + object_Base list" where
  "UnmarshalOneOrMany catalog data =
     (case data of
        Sequence items \<Rightarrow> Unmarshal_all catalog items
      | Mapping kvs \<Rightarrow>
          (case Unmarshal catalog data of Inl e \<Rightarrow> Inl e | Inr obj \<Rightarrow> Inr [obj])
      | Scalar s \<Rightarrow> Inl Malformed)"

text \<open>
  The files \<^verbatim>\<open>zglob.Glob\<close> finds under the path of the loader, each with what
  \<^verbatim>\<open>ioutil.ReadFile\<close> returns for it: an error, or the document its text denotes.
  \<^verbatim>\<open>sort.Strings\<close> puts the file names in byte order.
\<close>

type_synonym files = "(string \<times> (string + node)) list"

fun insert_file ::
  "string \<times> (string + node) \<Rightarrow> files \<Rightarrow> files" where
  "insert_file f [] = [f]"
| "insert_file f (f' # rest) =
     (if bytes_Compare (fst f) (fst f') \<le> 0 then f # f' # rest else f' # insert_file f rest)"

definition sort_Strings :: "files \<Rightarrow> files" where
  "sort_Strings fs = foldr insert_file fs []"

datatype load_error =
    ReadError string string
  | UnmarshalFileError string codec_error
  | MarshalError codec_error
  | UnmarshalError codec_error

text \<open>\<^verbatim>\<open>FileLoader.loadObjectsFromFile\<close>.\<close>

definition loadObjectsFromFile ::
  "ObjectCatalog \<Rightarrow> string \<times> (string + node) \<Rightarrow> load_error + object_Base list" where
  "loadObjectsFromFile catalog file =
     (case snd file of
        Inl err \<Rightarrow> Inl (ReadError (fst file) err)
      | Inr data \<Rightarrow>
          (case UnmarshalOneOrMany catalog data of
             Inl err \<Rightarrow> Inl (UnmarshalFileError (fst file) err)
           | Inr objects \<Rightarrow> Inr objects))"

text \<open>
  The loop of \<^verbatim>\<open>LoadObjects\<close> over the sorted files: a file whose name contains
  \<^verbatim>\<open>external\<close> is skipped, the objects of the others are appended to the result.
\<close>

fun load_files :: "ObjectCatalog \<Rightarrow> files \<Rightarrow> object_Base list \<Rightarrow> load_error + object_Base list" where
  "load_files catalog [] result = Inr result"
| "load_files catalog (f # fs) result =
     (if \<not> strings_Contains (fst f) ''external'' then
        (case loadObjectsFromFile catalog f of
           Inl err \<Rightarrow> Inl err
         | Inr objects \<Rightarrow> load_files catalog fs (result @ objects))
      else load_files catalog fs result)"

text \<open>
  \<^verbatim>\<open>FileLoader.LoadObjects\<close>: after the loop, the result is marshaled with \<^verbatim>\<open>MarshalMany\<close> and
  unmarshaled again with \<^verbatim>\<open>UnmarshalOneOrMany\<close>.
\<close>

definition LoadObjects :: "ObjectCatalog \<Rightarrow> files \<Rightarrow> load_error + object_Base list" where
  "LoadObjects catalog found =
     (case load_files catalog (sort_Strings found) [] of
        Inl err \<Rightarrow> Inl err
      | Inr result \<Rightarrow>
          (case MarshalMany result of
             Inl err \<Rightarrow> Inl (MarshalError err)
           | Inr data \<Rightarrow>
               (case UnmarshalOneOrMany catalog data of
                  Inl err \<Rightarrow> Inl (UnmarshalError err)
                | Inr result \<Rightarrow> Inr result)))"

text \<open>
  An object is of a kind of the catalog when the catalog lists exactly its field names
  for its kind; the field names of a kind are distinct and none is \<^verbatim>\<open>kind\<close>, the key of
  the discriminator.
\<close>

definition of_catalog :: "ObjectCatalog \<Rightarrow> object_Base \<Rightarrow> bool" where
  "of_catalog catalog obj =
     (catalog (Base_Kind obj) = Some (map fst (Base_fields obj))
      \<and> distinct (map fst (Base_fields obj))
      \<and> ''kind'' \<notin> set (map fst (Base_fields obj)))"

definition catalog_wf :: "ObjectCatalog \<Rightarrow> bool" where
  "catalog_wf catalog =
     (\<forall>kind names. catalog kind = Some names \<longrightarrow> distinct names \<and> ''kind'' \<notin> set names)"

section \<open>Notions used in the statements about the store\<close>

text \<open>Every marshaled list in the store is sorted.\<close>

definition lists_sorted :: "stm \<Rightarrow> bool" where
  "lists_sorted stm = (\<forall>K l. stm K = ListData l \<longrightarrow> sorted_bytes l)"

text \<open>
  Every object stored under a generation of the key carries that generation: what
  \<^verbatim>\<open>Save\<close> writes, since it marshals the object after \<^verbatim>\<open>SetGeneration\<close>.
\<close>

definition generations_faithful :: "stm \<Rightarrow> string \<Rightarrow> bool" where
  "generations_faithful stm key =
     (\<forall>g p. stm (''/object'' @ key @ ''@'' @ Generation_String g) = ObjectData p
            \<longrightarrow> GetGeneration p = g)"

text \<open>
  The entry of an index for an object and a generation is in place: the last-generation
  entry holds the generation, a list entry holds a sorted list with the generation in it.
\<close>

definition index_settled :: "Index \<Rightarrow> storable \<Rightarrow> Generation \<Rightarrow> stm \<Rightarrow> bool" where
  "index_settled ix obj g t =
     (case Index_NameForStorable ix obj of
        Inl _ \<Rightarrow> False
      | Inr n \<Rightarrow>
          (case Type ix of
             IndexTypeLastGen \<Rightarrow> t (''/index/'' @ n) = Raw (marshalGen g)
           | IndexTypeListGen \<Rightarrow>
               (\<exists>l. t (''/index/'' @ n) = ListData l \<and> sorted_bytes l \<and> marshalGen g \<in> set l)
           | IndexTypeUndef \<Rightarrow> False))"

text \<open>
  A Go struct field always has a name; the struct type of a \<^verbatim>\<open>TypeInfo\<close> is well formed
  when no field name is empty (the empty name is \<^verbatim>\<open>LastGenIndex\<close>).
\<close>

definition field_names_nonempty :: "TypeInfo \<Rightarrow> bool" where
  "field_names_nonempty info =
     (case (case New_type info of PtrTo elem \<Rightarrow> elem | other \<Rightarrow> other) of
        StructType _ fs \<Rightarrow> [] \<notin> fst ` set fs
      | _ \<Rightarrow> True)"

text \<open>
  The object has as many fields as the struct type of its kind: it is a value of the type
  \<^verbatim>\<open>New()\<close> returns.
\<close>

definition has_fields_of :: "TypeInfo \<Rightarrow> storable \<Rightarrow> bool" where
  "has_fields_of info obj =
     (case (case New_type info of PtrTo elem \<Rightarrow> elem | other \<Rightarrow> other) of
        StructType _ fs \<Rightarrow> length (fieldValues obj) = length fs
      | _ \<Rightarrow> False)"

text \<open>
  Every entry where a list index may live (\<^verbatim>\<open>/index/\<close> followed by nothing, the name
  \<^verbatim>\<open>NameForValue\<close> gives a \<^verbatim>\<open>nil\<close> value, or by \<^verbatim>\<open>listgen/...\<close>) is missing or holds a
  marshaled list.
\<close>

definition list_entries_readable :: "stm \<Rightarrow> bool" where
  "list_entries_readable stm =
     (\<forall>n. n = [] \<or> (\<exists>r. n = ''listgen/'' @ r) \<longrightarrow>
          stm (''/index/'' @ n) = Raw [] \<or> (\<exists>l. stm (''/index/'' @ n) = ListData l))"

text \<open>
  \<^verbatim>\<open>Index.NameForStorable\<close> and the loop of \<^verbatim>\<open>Save\<close> can handle the index for the object.
\<close>

definition index_usable :: "Index \<Rightarrow> storable \<Rightarrow> bool" where
  "index_usable ix obj =
     (Type ix = IndexTypeLastGen \<or>
      Type ix = IndexTypeListGen \<and> ValueTransform ix \<noteq> None
        \<and> rFieldID ix < length (fieldValues obj)
        \<and> (\<exists>value. fieldValues obj ! rFieldID ix = ExportedField value))"

text \<open>
  The fields of the object that the struct type of its kind tags as indexed are
  exported, so that \<^verbatim>\<open>f.Interface()\<close> can read them.
\<close>

definition indexed_fields_exported :: "TypeInfo \<Rightarrow> storable \<Rightarrow> bool" where
  "indexed_fields_exported info obj =
     (case (case New_type info of PtrTo elem \<Rightarrow> elem | other \<Rightarrow> other) of
        StructType _ fs \<Rightarrow>
          (\<forall>i < length fs. strings_Contains (snd (fs ! i)) ''index''
              \<longrightarrow> (\<exists>value. fieldValues obj ! i = ExportedField value))
      | _ \<Rightarrow> True)"

text \<open>
  The entry of the cache for the kind of a \<^verbatim>\<open>TypeInfo\<close>, if there is one, is the one
  \<^verbatim>\<open>IndexesFor\<close> makes for this \<^verbatim>\<open>TypeInfo\<close>: the kind is registered with the same type in
  every store of the process.
\<close>

definition cache_made_for :: "indexCache \<Rightarrow> TypeInfo \<Rightarrow> bool" where
  "cache_made_for cache info =
     (case cache (TypeInfo_Kind info) of
        None \<Rightarrow> True
      | Some indexes \<Rightarrow> indexes = fst (IndexesFor_build info))"

text \<open>The values of the list stored under a key; none when no list is stored there.\<close>

definition listed :: "stm \<Rightarrow> string \<Rightarrow> bytes set" where
  "listed stm K = (case stm K of ListData l \<Rightarrow> set l | _ \<Rightarrow> {})"

text \<open>The keys of the list-index entries of an object, one for each list index.\<close>

definition listgen_keys :: "Index list \<Rightarrow> storable \<Rightarrow> string set" where
  "listgen_keys ixs obj =
     {K. \<exists>ix n. ix \<in> set ixs \<and> Type ix = IndexTypeListGen
               \<and> Index_NameForStorable ix obj = Inr n \<and> K = ''/index/'' @ n}"

text \<open>
  The marshaled generations \<open>g\<close> of a key whose stored object (at \<^verbatim>\<open>/object<key>@<g>\<close>) has
  the list-index entry \<open>K\<close>: the generations whose object has that transformed field
  value.
\<close>

definition stored_generations :: "stm \<Rightarrow> Index list \<Rightarrow> string \<Rightarrow> string \<Rightarrow> bytes set" where
  "stored_generations stm ixs key K =
     {v. \<exists>g obj. v = marshalGen g
               \<and> stm (''/object'' @ key @ ''@'' @ Generation_String g) = ObjectData obj
               \<and> K \<in> listgen_keys ixs obj}"

text \<open>
  The response of a handler in \<^verbatim>\<open>noop\<close> mode for the policy \<open>policyUpdated\<close> it has put
  together: the generation of the latest policy in the registry, \<^verbatim>\<open>PolicyChanged\<close> false,
  \<^verbatim>\<open>MaxGeneration\<close> as the revision to wait for, the text of the plan that leads from the
  desired state of the latest revision to the resolution of \<open>policyUpdated\<close>, and the
  events of that resolution.
\<close>

text \<open>
  What the start of both handlers reads from the registry without a panic: the
  generation of the latest policy, the desired state of its last revision, and the
  policy of that generation.
\<close>

definition latest ::
  "('reg, 'pol, 'rev, 'ds, 'plan) coreAPI \<Rightarrow> 'reg \<Rightarrow> Generation \<Rightarrow> 'ds \<Rightarrow> 'pol \<Rightarrow> bool" where
  "latest api reg policyGen desiredState policy0 =
     (\<exists>policy revision g.
        GetPolicy api reg LastOrEmptyGen = Inr (policy, policyGen)
        \<and> GetLastRevisionForPolicy api reg policyGen = Inr revision
        \<and> GetDesiredState api reg revision = Inr desiredState
        \<and> GetPolicy api reg policyGen = Inr (policy0, g))"

text \<open>
  The log level of a request (\<^verbatim>\<open>WarnLevel\<close> when the parameter does not parse), and the
  resolution of a policy for a request: the desired state and the events.
\<close>

definition request_logLevel ::
  "('reg, 'pol, 'rev, 'ds, 'plan) coreAPI \<Rightarrow> (string \<Rightarrow> string) \<Rightarrow> Level" where
  "request_logLevel api params =
     (case ParseLevel api (params ''loglevel'') of Some l \<Rightarrow> l | None \<Rightarrow> WarnLevel)"

definition resolution ::
  "('reg, 'pol, 'rev, 'ds, 'plan) coreAPI \<Rightarrow> (string \<Rightarrow> string) \<Rightarrow> string \<Rightarrow> 'pol
   \<Rightarrow> 'ds \<times> string list" where
  "resolution api params logName policyUpdated =
     ResolveAllClaims api policyUpdated (request_logLevel api params) logName"

definition noop_result ::
  "('reg, 'pol, 'rev, 'ds, 'plan) coreAPI \<Rightarrow> 'reg \<Rightarrow> (string \<Rightarrow> string) \<Rightarrow> string \<Rightarrow> 'pol
   \<Rightarrow> PolicyUpdateResult \<Rightarrow> bool" where
  "noop_result api reg params logName policyUpdated res =
     (\<exists>policy policyGen revision desiredState.
        GetPolicy api reg LastOrEmptyGen = Inr (policy, policyGen)
        \<and> GetLastRevisionForPolicy api reg policyGen = Inr revision
        \<and> GetDesiredState api reg revision = Inr desiredState
        \<and> (let logLevel = (case ParseLevel api (params ''loglevel'') of
                             Some l \<Rightarrow> l | None \<Rightarrow> WarnLevel);
                (desiredStateUpdated, events) = ResolveAllClaims api policyUpdated logLevel logName
            in res = \<lparr>PolicyGeneration = policyGen,
                      PolicyChanged = False,
                      WaitForRevision = MaxGeneration,
                      PlanAsText = AsText api (NewPolicyResolutionDiff api desiredStateUpdated desiredState),
                      EventLog = events\<rparr>))"

section \<open>A concrete store\<close>

text \<open>
  The object of the spec's scenarios (section 8): a versioned kind with an indexed field
  \<^verbatim>\<open>Replicas\<close>, the object \<^verbatim>\<open>p/service/kafka\<close>, the empty store, and the store after the
  first save of the object with \<^verbatim>\<open>Replicas\<close> \<open>1\<close>.
\<close>

definition ServiceInfo :: TypeInfo where
  "ServiceInfo =
     \<lparr>TypeInfo_Kind = ''service'', Versioned = True,
      New = \<lparr>GetNamespace = [], GetKind = ''service'', GetName = [], GetGeneration = 0,
             fieldValues = [ExportedField NilValue, ExportedField (StringValue [])]\<rparr>,
      New_type = PtrTo (StructType ''Service'' [(''Metadata'', []), (''Replicas'', ''index'')]),
      IndexValueTransforms = Map.empty\<rparr>"

definition kafka :: "string \<Rightarrow> Generation \<Rightarrow> storable" where
  "kafka replicas gen =
     \<lparr>GetNamespace = ''p'', GetKind = ''service'', GetName = ''kafka'', GetGeneration = gen,
      fieldValues = [ExportedField (OtherValue ''metadata''), ExportedField (StringValue replicas)]\<rparr>"

definition empty_store :: etcdStore where
  "empty_store = \<lparr>client = (\<lambda>key. Raw []), types = [''service'' \<mapsto> ServiceInfo],
      indexCache = Map.empty\<rparr>"

definition kafka_store :: etcdStore where
  "kafka_store = fst (Save empty_store (Some (kafka ''1'' 0)) [])"

text \<open>
  The store after two more saves: the object with \<^verbatim>\<open>Replicas\<close> \<open>3\<close>, which gets generation
  \<open>2\<close>, and then, with \<^verbatim>\<open>ReplaceOrForceGen\<close>, the object of generation \<open>1\<close> again, which
  sets the last-generation index back to \<open>1\<close>.
\<close>

definition moved_back_store :: etcdStore where
  "moved_back_store =
     fst (Save (fst (Save kafka_store (Some (kafka ''3'' 0)) []))
            (Some (kafka ''1'' 1)) [WithReplaceOrForceGen])"

text \<open>
  Two more kinds. The type of the first is a slice, not a struct, so \<^verbatim>\<open>IndexesFor\<close> panics
  at its first call for the kind. The struct of the second has an indexed field that is
  not exported.
\<close>

definition NamesInfo :: TypeInfo where
  "NamesInfo =
     \<lparr>TypeInfo_Kind = ''names'', Versioned = True,
      New = \<lparr>GetNamespace = [], GetKind = ''names'', GetName = [], GetGeneration = 0,
             fieldValues = []\<rparr>,
      New_type = PtrTo (SliceOf (BasicType ''string'')),
      IndexValueTransforms = Map.empty\<rparr>"

definition names :: "Generation \<Rightarrow> storable" where
  "names gen =
     \<lparr>GetNamespace = ''p'', GetKind = ''names'', GetName = ''n'', GetGeneration = gen,
      fieldValues = []\<rparr>"

definition HiddenInfo :: TypeInfo where
  "HiddenInfo =
     \<lparr>TypeInfo_Kind = ''hidden'', Versioned = True,
      New = \<lparr>GetNamespace = [], GetKind = ''hidden'', GetName = [], GetGeneration = 0,
             fieldValues = [UnexportedField (StringValue [])]\<rparr>,
      New_type = PtrTo (StructType ''Hidden'' [(''replicas'', ''index'')]),
      IndexValueTransforms = Map.empty\<rparr>"

definition hidden :: "Generation \<Rightarrow> storable" where
  "hidden gen =
     \<lparr>GetNamespace = ''p'', GetKind = ''hidden'', GetName = ''h'', GetGeneration = gen,
      fieldValues = [UnexportedField (StringValue ''1'')]\<rparr>"

definition other_store :: etcdStore where
  "other_store = \<lparr>client = (\<lambda>key. Raw []),
      types = [''names'' \<mapsto> NamesInfo, ''hidden'' \<mapsto> HiddenInfo],
      indexCache = Map.empty\<rparr>"

section \<open>A concrete API\<close>

text \<open>
  An insertion sort in the place of \<^verbatim>\<open>sort.Sort\<close>, and a small instance of what the handlers
  call: the policy is the list of its objects, the registry is the latest policy and its
  generation, \<^verbatim>\<open>ManageObject\<close> lets a user manage an ACL rule, and any other object once
  the policy holds an ACL rule.
\<close>

fun insert_by :: "('a \<Rightarrow> 'a \<Rightarrow> bool) \<Rightarrow> 'a \<Rightarrow> 'a list \<Rightarrow> 'a list" where
  "insert_by lt x [] = [x]"
| "insert_by lt x (y # ys) = (if lt y x then y # insert_by lt x ys else x # y # ys)"

definition insertion_sort :: "('a \<Rightarrow> 'a \<Rightarrow> bool) \<Rightarrow> 'a list \<Rightarrow> 'a list" where
  "insertion_sort lt xs = foldr (insert_by lt) xs []"

definition example_api ::
  "(lang_Base list \<times> nat, lang_Base list, nat, lang_Base list,
    lang_Base list \<times> lang_Base list) coreAPI" where
  "example_api =
     \<lparr>GetPolicy = (\<lambda>reg gen. Inr (fst reg, snd reg)),
      GetLastRevisionForPolicy = (\<lambda>reg gen. Inr 1),
      GetDesiredState = (\<lambda>reg rev. Inr []),
      UpdatePolicy = (\<lambda>reg objects user.
         ((fst reg @ objects, snd reg + 1), Inr (True, snd reg + 1))),
      DeleteFromPolicy = (\<lambda>reg objects user.
         ((foldl (\<lambda>policy obj. removeAll obj policy) (fst reg) objects, snd reg + 1),
          Inr (True, snd reg + 1))),
      NewRevision = (\<lambda>reg gen ds recalc. (reg, Inr 2)),
      ManageObject = (\<lambda>policy user obj.
         if list_ex (\<lambda>rule. GetKind rule = TypeACLRule_Kind) policy
            \<or> GetKind obj = TypeACLRule_Kind
         then None else Some ''no ACL rule gives access''),
      AddObject = (\<lambda>policy obj. Inr (policy @ [obj])),
      RemoveObject = (\<lambda>policy obj. removeAll obj policy),
      Validate = (\<lambda>policy. None),
      isCluster = (\<lambda>obj. GetKind obj = ''cluster''),
      ForCluster = (\<lambda>obj. None),
      plugin_Validate = (\<lambda>obj. None),
      ParseLevel = (\<lambda>str. if str = ''debug'' then Some DebugLevel else None),
      ResolveAllClaims = (\<lambda>policy level logName. (policy, [logName])),
      resolution_Validate = (\<lambda>ds policy. None),
      NewPolicyResolutionDiff = (\<lambda>new prev. (new, prev)),
      AsText = (\<lambda>plan. if fst plan = snd plan then [] else ''changes''),
      sort_Sort = insertion_sort\<rparr>"

definition example_rule :: lang_Base where
  "example_rule = \<lparr>GetNamespace = ''p'', GetKind = ''aclrule'', GetName = ''devs'',
                    GetGeneration = 0, fieldValues = []\<rparr>"

definition example_params :: "string \<Rightarrow> string" where
  "example_params name = (if name = ''noop'' then ''true'' else [])"



section \<open>A concrete catalog and concrete files\<close>

text \<open>
  Two kinds, two objects of them (one with an empty field), and three files: one omits
  the empty field, one is under \<^verbatim>\<open>external\<close> and cannot be read.
\<close>

definition example_catalog :: ObjectCatalog where
  "example_catalog = [''service'' \<mapsto> [''name'', ''labels''], ''claim'' \<mapsto> [''user'']]"

definition example_objects :: "object_Base list" where
  "example_objects =
     [\<lparr>Base_Kind = ''service'',
       Base_fields = [(''name'', Scalar ''kafka''), (''labels'', Scalar [])]\<rparr>,
      \<lparr>Base_Kind = ''claim'', Base_fields = [(''user'', Scalar ''alice'')]\<rparr>]"

definition example_files :: files where
  "example_files =
     [(''policy/services.yaml'', Inr (Mapping [(''name'', Scalar ''kafka''), (''kind'', Scalar ''service'')])),
      (''policy/external/users.yaml'', Inl ''not read''),
      (''policy/claims.yaml'', Inr (Sequence [Mapping [(''kind'', Scalar ''claim''), (''user'', Scalar ''alice'')]]))]"
section \<open>Decimal generations\<close>

lemma Generation_String_nonempty: "Generation_String g \<noteq> []"
  by (subst Generation_String.simps) simp

lemma of_char_digit_char: "d < 10 \<Longrightarrow> (of_char (digit_char d) :: nat) = 48 + d"
proof -
  assume "d < 10"
  then have "d \<in> {0,1,2,3,4,5,6,7,8,9}" by auto
  then show ?thesis by (auto simp: digit_char_def)
qed

lemma parse_digits_snoc:
  "parse_digits acc (cs @ [c]) =
     (case parse_digits acc cs of
        None \<Rightarrow> None
      | Some n \<Rightarrow> if 48 \<le> (of_char c :: nat) \<and> (of_char c :: nat) \<le> 57
                   then Some (n * 10 + (of_char c - 48)) else None)"
  by (induction cs arbitrary: acc) auto

lemma parse_digits_Generation_String: "parse_digits 0 (Generation_String g) = Some g"
proof (induction g rule: Generation_String.induct)
  case (1 gen)
  show ?case
  proof (cases "gen < 10")
    case True
    then show ?thesis
      by (subst Generation_String.simps) (simp add: of_char_digit_char)
  next
    case False
    have m: "gen mod 10 < 10" by simp
    from False 1 have "parse_digits 0 (Generation_String (gen div 10)) = Some (gen div 10)"
      by simp
    with False m show ?thesis
      by (subst Generation_String.simps) (simp add: parse_digits_snoc of_char_digit_char)
  qed
qed

lemma Generation_String_inject: "Generation_String a = Generation_String b \<Longrightarrow> a = b"
  by (metis parse_digits_Generation_String option.inject)

lemma unmarshalGen_marshalGen: "unmarshalGen (Raw (marshalGen g)) = Inr g"
  by (simp add: unmarshalGen_def marshalGen_def Generation_String_nonempty parse_digits_Generation_String)


section \<open>Byte order and binary search\<close>

lemma bytes_Compare_refl: "bytes_Compare a a = 0"
  by (induction a) auto

lemma bytes_Compare_eq_0: "bytes_Compare a b = 0 \<Longrightarrow> a = b"
proof (induction a b rule: bytes_Compare.induct)
  case (4 x xs y ys)
  then show ?case
    by (auto split: if_splits) 
qed auto

lemma bytes_Compare_antisym: "bytes_Compare a b \<le> 0 \<Longrightarrow> bytes_Compare b a \<le> 0 \<Longrightarrow> a = b"
proof (induction a b rule: bytes_Compare.induct)
  case (4 x xs y ys)
  then show ?case
    by (auto split: if_splits)
qed auto

lemma bytes_Compare_flip: "bytes_Compare a b \<ge> 0 \<longleftrightarrow> bytes_Compare b a \<le> 0"
  by (induction a b rule: bytes_Compare.induct) auto

lemma bytes_Compare_total: "bytes_Compare a b \<le> 0 \<or> bytes_Compare b a \<le> 0"
  by (induction a b rule: bytes_Compare.induct) auto

lemma bytes_Compare_Cons_le:
  "bytes_Compare (x # xs) (y # ys) \<le> 0 \<longleftrightarrow>
     (of_char x :: nat) < of_char y \<or> ((of_char x :: nat) = of_char y \<and> bytes_Compare xs ys \<le> 0)"
  by auto

lemma bytes_Compare_trans:
  "bytes_Compare a b \<le> 0 \<Longrightarrow> bytes_Compare b c \<le> 0 \<Longrightarrow> bytes_Compare a c \<le> 0"
proof (induction a arbitrary: b c)
  case Nil
  then show ?case by (cases c) auto
next
  case (Cons x xs)
  from Cons.prems(1) obtain y ys where b: "b = y # ys" by (cases b) auto
  from Cons.prems(2) b obtain z zs where c: "c = z # zs" by (cases c) auto
  from Cons.prems(1) b
  have ab: "(of_char x :: nat) < of_char y \<or> ((of_char x :: nat) = of_char y \<and> bytes_Compare xs ys \<le> 0)"
    by (simp only: bytes_Compare_Cons_le)
  from Cons.prems(2) b c
  have bc: "(of_char y :: nat) < of_char z \<or> ((of_char y :: nat) = of_char z \<and> bytes_Compare ys zs \<le> 0)"
    by (simp only: bytes_Compare_Cons_le)
  have "(of_char x :: nat) < of_char z \<or> ((of_char x :: nat) = of_char z \<and> bytes_Compare xs zs \<le> 0)"
    using ab bc Cons.IH[of ys zs] by auto
  then show ?case unfolding c by (simp only: bytes_Compare_Cons_le)
qed

lemma sort_Search_loop_bounds:
  "i \<le> j \<Longrightarrow> i \<le> sort_Search_loop f i j \<and> sort_Search_loop f i j \<le> j"
proof (induction f i j rule: sort_Search_loop.induct)
  case (1 f i j)
  show ?case
  proof (cases "i < j")
    case True
    define h where "h = (i + j) div 2"
    have hb: "i \<le> h" "h < j" using True by (auto simp: h_def)
    show ?thesis
    proof (cases "f h")
      case True
      have eq: "sort_Search_loop f i j = sort_Search_loop f i h"
        using True \<open>i < j\<close> by (subst sort_Search_loop.simps) (simp add: h_def Let_def)
      have "i \<le> sort_Search_loop f i h \<and> sort_Search_loop f i h \<le> h"
        using 1(2)[OF \<open>i < j\<close> h_def _ hb(1)] True by blast
      then show ?thesis unfolding eq using hb by linarith
    next
      case False
      have eq: "sort_Search_loop f i j = sort_Search_loop f (h + 1) j"
        using False \<open>i < j\<close> by (subst sort_Search_loop.simps) (simp add: h_def Let_def)
      have hj: "h + 1 \<le> j" using hb by simp
      have "h + 1 \<le> sort_Search_loop f (h + 1) j \<and> sort_Search_loop f (h + 1) j \<le> j"
        using 1(1)[OF \<open>i < j\<close> h_def _ hj] False by blast
      then show ?thesis unfolding eq using hb by linarith
    qed
  next
    case False
    then have "sort_Search_loop f i j = i" by (subst sort_Search_loop.simps) simp
    with False 1(3) show ?thesis by linarith
  qed
qed

lemma sort_Search_loop_spec:
  assumes "i \<le> j"
    and mono: "\<And>h k. i \<le> h \<Longrightarrow> h \<le> k \<Longrightarrow> k < j \<Longrightarrow> f h \<Longrightarrow> f k"
  shows "(\<forall>h. i \<le> h \<and> h < sort_Search_loop f i j \<longrightarrow> \<not> f h)
       \<and> (\<forall>h. sort_Search_loop f i j \<le> h \<and> h < j \<longrightarrow> f h)"
  using assms
proof (induction f i j rule: sort_Search_loop.induct)
  case (1 f i j)
  show ?case
  proof (cases "i < j")
    case True
    define h where "h = (i + j) div 2"
    have hb: "i \<le> h" "h < j" using True by (auto simp: h_def)
    show ?thesis
    proof (cases "f h")
      case True
      have eq: "sort_Search_loop f i j = sort_Search_loop f i h"
        using True \<open>i < j\<close> by (subst sort_Search_loop.simps) (simp add: h_def Let_def)
      have m: "f b" if "i \<le> a" "a \<le> b" "b < h" "f a" for a b
      proof (rule 1(4)[of a b])
        show "b < j" using that hb by linarith
      qed (rule that)+
      have IH: "(\<forall>k. i \<le> k \<and> k < sort_Search_loop f i h \<longrightarrow> \<not> f k)
          \<and> (\<forall>k. sort_Search_loop f i h \<le> k \<and> k < h \<longrightarrow> f k)"
        using 1(2)[OF \<open>i < j\<close> h_def _ hb(1)] True m by blast
      have up: "\<And>k. h \<le> k \<Longrightarrow> k < j \<Longrightarrow> f k"
        using 1(4)[OF hb(1)] True by blast
      show ?thesis unfolding eq
      proof (intro conjI allI impI)
        fix k assume "i \<le> k \<and> k < sort_Search_loop f i h"
        then show "\<not> f k" using IH by blast
      next
        fix k assume a: "sort_Search_loop f i h \<le> k \<and> k < j"
        show "f k"
        proof (cases "k < h")
          case True
          then show ?thesis using IH a by blast
        next
          case False
          then show ?thesis using up a by simp
        qed
      qed
    next
      case False
      have eq: "sort_Search_loop f i j = sort_Search_loop f (h + 1) j"
        using False \<open>i < j\<close> by (subst sort_Search_loop.simps) (simp add: h_def Let_def)
      have m: "f b" if "h + 1 \<le> a" "a \<le> b" "b < j" "f a" for a b
      proof (rule 1(4)[of a b])
        show "i \<le> a" using that hb by linarith
      qed (rule that)+
      have hj: "h + 1 \<le> j" using hb by simp
      have IH: "(\<forall>k. h + 1 \<le> k \<and> k < sort_Search_loop f (h + 1) j \<longrightarrow> \<not> f k)
          \<and> (\<forall>k. sort_Search_loop f (h + 1) j \<le> k \<and> k < j \<longrightarrow> f k)"
        using 1(1)[OF \<open>i < j\<close> h_def _ hj] False m by blast
      have low: "\<And>k. i \<le> k \<Longrightarrow> k \<le> h \<Longrightarrow> \<not> f k"
        using 1(4) False hb by blast
      show ?thesis unfolding eq
      proof (intro conjI allI impI)
        fix k assume a: "i \<le> k \<and> k < sort_Search_loop f (h + 1) j"
        show "\<not> f k"
        proof (cases "k \<le> h")
          case True
          then show ?thesis using low a by blast
        next
          case False
          then have "h + 1 \<le> k" by simp
          then show ?thesis using IH a by blast
        qed
      next
        fix k assume a: "sort_Search_loop f (h + 1) j \<le> k \<and> k < j"
        then show "f k" using IH by blast
      qed
    qed
  next
    case False
    then have "sort_Search_loop f i j = i" by (subst sort_Search_loop.simps) simp
    with False show ?thesis by auto
  qed
qed


section \<open>Adding to a sorted list\<close>

lemma sort_Search_le: "sort_Search n f \<le> n"
  using sort_Search_loop_bounds[of 0 n f] by (simp add: sort_Search_def)

lemma set_Add: "set (Add list v) = insert v (set list)"
proof -
  define k where "k = sort_Search (length list) (\<lambda>index. bytes_Compare (list ! index) v \<ge> 0)"
  have kb: "k \<le> length list" unfolding k_def by (rule sort_Search_le)
  show ?thesis
  proof (cases "k < length list \<and> list ! k = v")
    case True
    then have "v \<in> set list" by (metis nth_mem)
    with True show ?thesis by (auto simp: Add_def k_def[symmetric] Let_def)
  next
    case False
    have u: "set (take k list) \<union> set (drop k list) = set list"
      by (metis append_take_drop_id set_append)
    have "set (take k list @ [v] @ drop k list) = insert v (set (take k list) \<union> set (drop k list))"
      by simp
    then have "set (take k list @ [v] @ drop k list) = insert v (set list)"
      by (simp only: u)
    moreover have "Add list v = take k list @ [v] @ drop k list"
      using False by (auto simp: Add_def k_def[symmetric] Let_def)
    ultimately show ?thesis by simp
  qed
qed

lemma sorted_bytes_nth:
  "sorted_bytes list \<Longrightarrow> i \<le> j \<Longrightarrow> j < length list \<Longrightarrow> bytes_Compare (list ! i) (list ! j) \<le> 0"
  by (cases "i = j") (auto simp: sorted_bytes_def bytes_Compare_refl sorted_wrt_iff_nth_less)

lemma sorted_search_mono:
  assumes "sorted_bytes list" "h \<le> k" "k < length list" "bytes_Compare (list ! h) v \<ge> 0"
  shows "bytes_Compare (list ! k) v \<ge> 0"
proof -
  have "bytes_Compare v (list ! h) \<le> 0" using assms(4) by (simp add: bytes_Compare_flip)
  moreover have "bytes_Compare (list ! h) (list ! k) \<le> 0" using assms by (simp add: sorted_bytes_nth)
  ultimately have "bytes_Compare v (list ! k) \<le> 0" by (rule bytes_Compare_trans)
  then show ?thesis by (simp add: bytes_Compare_flip)
qed

lemma sorted_search_spec:
  fixes list :: IndexValueList and v :: bytes
  assumes "sorted_bytes list"
  defines "k \<equiv> sort_Search (length list) (\<lambda>index. bytes_Compare (list ! index) v \<ge> 0)"
  shows "k \<le> length list"
    and "\<And>h. h < k \<Longrightarrow> \<not> bytes_Compare (list ! h) v \<ge> 0"
    and "\<And>h. k \<le> h \<Longrightarrow> h < length list \<Longrightarrow> bytes_Compare (list ! h) v \<ge> 0"
proof -
  let ?f = "\<lambda>index. bytes_Compare (list ! index) v \<ge> 0"
  have mono: "\<And>h k. 0 \<le> h \<Longrightarrow> h \<le> k \<Longrightarrow> k < length list \<Longrightarrow> ?f h \<Longrightarrow> ?f k"
    using sorted_search_mono[OF assms(1)] by blast
  have spec: "(\<forall>h. 0 \<le> h \<and> h < sort_Search_loop ?f 0 (length list) \<longrightarrow> \<not> ?f h)
       \<and> (\<forall>h. sort_Search_loop ?f 0 (length list) \<le> h \<and> h < length list \<longrightarrow> ?f h)"
    by (rule sort_Search_loop_spec[of 0 "length list" ?f]) (use mono in blast)+
  show "k \<le> length list" unfolding k_def by (rule sort_Search_le)
  show "\<And>h. h < k \<Longrightarrow> \<not> bytes_Compare (list ! h) v \<ge> 0"
    using spec unfolding k_def sort_Search_def by blast
  show "\<And>h. k \<le> h \<Longrightarrow> h < length list \<Longrightarrow> bytes_Compare (list ! h) v \<ge> 0"
    using spec unfolding k_def sort_Search_def by blast
qed

lemma Add_present:
  assumes "sorted_bytes list" "v \<in> set list"
  shows "Add list v = list"
proof -
  define k where "k = sort_Search (length list) (\<lambda>index. bytes_Compare (list ! index) v \<ge> 0)"
  note sp = sorted_search_spec[OF assms(1), where v = v, folded k_def]
  from assms(2) obtain m where m: "m < length list" "list ! m = v"
    by (auto simp: in_set_conv_nth)
  have "k \<le> m"
  proof (rule ccontr)
    assume "\<not> k \<le> m"
    then have "m < k" by simp
    from sp(2)[OF this] m show False by (simp add: bytes_Compare_refl)
  qed
  with m have kl: "k < length list" by simp
  have "bytes_Compare (list ! k) v \<ge> 0" using sp(3)[of k] kl by simp
  then have 1: "bytes_Compare v (list ! k) \<le> 0" by (simp add: bytes_Compare_flip)
  have 2: "bytes_Compare (list ! k) v \<le> 0"
    using sorted_bytes_nth[OF assms(1) \<open>k \<le> m\<close> m(1)] m(2) by simp
  have "list ! k = v" using bytes_Compare_antisym[OF 2 1] .
  with kl show ?thesis by (simp add: Add_def k_def[symmetric] Let_def)
qed

lemma sorted_Add:
  assumes "sorted_bytes list"
  shows "sorted_bytes (Add list v)"
proof -
  define k where "k = sort_Search (length list) (\<lambda>index. bytes_Compare (list ! index) v \<ge> 0)"
  note sp = sorted_search_spec[OF assms(1), where v = v, folded k_def]
  show ?thesis
  proof (cases "k < length list \<and> list ! k = v")
    case True
    with assms show ?thesis by (simp add: Add_def k_def[symmetric] Let_def)
  next
    case False
    have eq: "Add list v = take k list @ [v] @ drop k list"
      using False by (auto simp: Add_def k_def[symmetric] Let_def)
    have before: "\<And>x. x \<in> set (take k list) \<Longrightarrow> bytes_Compare x v \<le> 0"
    proof -
      fix x assume "x \<in> set (take k list)"
      then obtain h where h: "h < k" "h < length list" "x = list ! h"
        by (auto simp: in_set_conv_nth)
      from sp(2)[OF h(1)] have "\<not> bytes_Compare (list ! h) v \<ge> 0" .
      then show "bytes_Compare x v \<le> 0" using h(3) by simp
    qed
    have after: "\<And>x. x \<in> set (drop k list) \<Longrightarrow> bytes_Compare v x \<le> 0"
    proof -
      fix x assume "x \<in> set (drop k list)"
      then obtain h where h: "k \<le> h" "h < length list" "x = list ! h"
        by (auto simp: in_set_conv_nth) (metis le_add1 less_diff_conv add.commute)
      from sp(3)[OF h(1) h(2)] show "bytes_Compare v x \<le> 0"
        using h(3) by (simp add: bytes_Compare_flip)
    qed
    have cross: "\<And>x y. x \<in> set (take k list) \<Longrightarrow> y \<in> set (drop k list) \<Longrightarrow> bytes_Compare x y \<le> 0"
      using before after bytes_Compare_trans by blast
    have s1: "sorted_wrt (\<lambda>a b. bytes_Compare a b \<le> 0) (take k list)"
      using assms unfolding sorted_bytes_def by (rule sorted_wrt_take)
    have s2: "sorted_wrt (\<lambda>a b. bytes_Compare a b \<le> 0) (drop k list)"
      using assms unfolding sorted_bytes_def by (rule sorted_wrt_drop)
    show ?thesis unfolding eq sorted_bytes_def
      using s1 s2 before after cross by (simp add: sorted_wrt_append)
  qed
qed


section \<open>Index names and the frame of the index loop\<close>

lemma KeyForStorable_SetGeneration: "KeyForStorable (SetGeneration obj g) = KeyForStorable obj"
  by (simp add: KeyForStorable_def SetGeneration_def)

lemma Index_NameForStorable_SetGeneration:
  "Index_NameForStorable ix (SetGeneration obj g) = Index_NameForStorable ix obj"
  by (simp add: Index_NameForStorable_def KeyForStorable_def SetGeneration_def Let_def)

lemma Index_NameForStorable_LastGen:
  "Type ix = IndexTypeLastGen \<Longrightarrow>
   Index_NameForStorable ix obj = Inr (''lastgen/'' @ KeyForStorable obj)"
  by (simp add: Index_NameForStorable_def Index_NameForValue_def IndexType_String_def Let_def)

lemma Index_NameForValue_ListGen:
  "Type ix = IndexTypeListGen \<Longrightarrow> Index_NameForValue ix key v = Inr n \<Longrightarrow>
   n = [] \<or> (\<exists>r. n = ''listgen/'' @ r)"
  by (auto simp: Index_NameForValue_def IndexType_String_def Let_def
           split: option.splits fvalue.splits)

lemma Index_NameForStorable_ListGen:
  "Type ix = IndexTypeListGen \<Longrightarrow> Index_NameForStorable ix obj = Inr n \<Longrightarrow>
   n = [] \<or> (\<exists>r. n = ''listgen/'' @ r)"
  by (auto simp: Index_NameForStorable_def Let_def dest: Index_NameForValue_ListGen
           split: if_splits sum.splits)

lemma ListGen_name_not_lastgen:
  "Type ix = IndexTypeListGen \<Longrightarrow> Index_NameForStorable ix obj = Inr n \<Longrightarrow>
   n \<noteq> ''lastgen/'' @ key"
  by (auto dest: Index_NameForStorable_ListGen)

lemma Save_index_prevObj:
  "Save_index ix prevObj newObj g stm = Save_index ix None newObj g stm"
  by (simp add: Save_index_def Let_def)

lemma Save_indexes_prevObj:
  "Save_indexes ixs prevObj newObj g stm = Save_indexes ixs None newObj g stm"
proof (induction ixs arbitrary: stm)
  case Nil
  show ?case by simp
next
  case (Cons ix ixs)
  show ?case
    by (simp add: Save_index_prevObj[of ix prevObj] Cons.IH split: sum.splits)
qed

lemma Save_index_LastGen:
  "Type ix = IndexTypeLastGen \<Longrightarrow>
   Save_index ix p obj g stm =
     Inr (stm(''/index/lastgen/'' @ KeyForStorable obj := Raw (marshalGen g)))"
  by (simp add: Save_index_def Index_NameForStorable_LastGen Let_def)

lemma Save_index_Inr_cases:
  assumes "Save_index ix p obj g stm = Inr t"
  obtains (last) "Type ix = IndexTypeLastGen"
      "t = stm(''/index/lastgen/'' @ KeyForStorable obj := Raw (marshalGen g))"
  | (list) n l where "Type ix = IndexTypeListGen" "Index_NameForStorable ix obj = Inr n"
      "stm (''/index/'' @ n) = Raw [] \<and> l = [] \<or> stm (''/index/'' @ n) = ListData l"
      "t = stm(''/index/'' @ n := ListData (Add l (marshalGen g)))"
proof (cases "Type ix")
  case IndexTypeUndef
  with assms show ?thesis
    by (auto simp: Save_index_def Let_def split: sum.splits)
next
  case IndexTypeLastGen
  with assms show ?thesis
    using last by (simp add: Save_index_LastGen)
next
  case IndexTypeListGen
  from assms obtain n where n: "Index_NameForStorable ix obj = Inr n"
    by (auto simp: Save_index_def split: sum.splits)
  show ?thesis
  proof (cases "stm (''/index/'' @ n) = Raw []")
    case True
    with assms IndexTypeListGen n have "t = stm(''/index/'' @ n := ListData (Add [] (marshalGen g)))"
      by (auto simp: Save_index_def Let_def)
    with True IndexTypeListGen n show ?thesis using list by blast
  next
    case False
    with assms IndexTypeListGen n obtain l where l: "stm (''/index/'' @ n) = ListData l"
      by (auto simp: Save_index_def Let_def unmarshal_IndexValueList_def split: sum.splits blob.splits)
    with assms IndexTypeListGen n False
    have "t = stm(''/index/'' @ n := ListData (Add l (marshalGen g)))"
      by (auto simp: Save_index_def Let_def unmarshal_IndexValueList_def)
    with l IndexTypeListGen n show ?thesis using list by blast
  qed
qed

lemma Save_index_frame:
  assumes "Save_index ix p obj g stm = Inr t" "\<And>n. K \<noteq> ''/index/'' @ n"
  shows "t K = stm K"
  using assms(1)
proof (cases rule: Save_index_Inr_cases)
  case last
  have "K \<noteq> ''/index/'' @ (''lastgen/'' @ KeyForStorable obj)" by (rule assms(2))
  with last show ?thesis by simp
next
  case (list n l)
  with assms(2)[of n] show ?thesis by simp
qed

lemma Save_indexes_frame:
  assumes "Save_indexes ixs p obj g stm = Inr t" "\<And>n. K \<noteq> ''/index/'' @ n"
  shows "t K = stm K"
  using assms(1)
proof (induction ixs arbitrary: stm)
  case Nil
  then show ?case by simp
next
  case (Cons ix ixs)
  from Cons.prems obtain stm' where s: "Save_index ix p obj g stm = Inr stm'"
      and r: "Save_indexes ixs p obj g stm' = Inr t"
    by (auto split: sum.splits)
  from Cons.IH[OF r] Save_index_frame[OF s assms(2)] show ?case by simp
qed

lemma object_key_not_index: "''/object'' @ x \<noteq> ''/index/'' @ n"
  by simp


section \<open>The index loop run twice\<close>

lemma sorted_bytes_Nil: "sorted_bytes []"
  by (simp add: sorted_bytes_def)

lemma Save_index_settles:
  assumes "Save_index ix p obj g stm = Inr t" "lists_sorted stm"
  shows "index_settled ix obj g t \<and> lists_sorted t"
  using assms(1)
proof (cases rule: Save_index_Inr_cases)
  case last
  with assms(2) show ?thesis
    by (auto simp: index_settled_def Index_NameForStorable_LastGen lists_sorted_def)
next
  case (list n l)
  have "sorted_bytes l" using list(3) assms(2) by (auto simp: lists_sorted_def sorted_bytes_Nil)
  then have "sorted_bytes (Add l (marshalGen g))" by (rule sorted_Add)
  with list assms(2) show ?thesis
    by (auto simp: index_settled_def lists_sorted_def set_Add)
qed

lemma Save_index_keeps_settled:
  assumes "index_settled ix obj g stm" "Save_index ix' p obj g stm = Inr t"
  shows "index_settled ix obj g t"
  using assms(2)
proof (cases rule: Save_index_Inr_cases)
  case last
  show ?thesis
  proof (cases "Type ix")
    case IndexTypeUndef
    with assms(1) show ?thesis by (auto simp: index_settled_def split: sum.splits)
  next
    case IndexTypeLastGen
    with last show ?thesis
      by (simp add: index_settled_def Index_NameForStorable_LastGen)
  next
    case IndexTypeListGen
    from assms(1) obtain n where n: "Index_NameForStorable ix obj = Inr n"
      by (auto simp: index_settled_def split: sum.splits)
    have "n \<noteq> ''lastgen/'' @ KeyForStorable obj"
      using ListGen_name_not_lastgen[OF IndexTypeListGen n] .
    with assms(1) n IndexTypeListGen last show ?thesis
      by (simp add: index_settled_def)
  qed
next
  case (list n' l')
  show ?thesis
  proof (cases "Type ix")
    case IndexTypeUndef
    with assms(1) show ?thesis by (auto simp: index_settled_def split: sum.splits)
  next
    case IndexTypeLastGen
    have "n' \<noteq> ''lastgen/'' @ KeyForStorable obj"
      using ListGen_name_not_lastgen[OF list(1) list(2)] .
    with assms(1) IndexTypeLastGen list(4) show ?thesis
      by (simp add: index_settled_def Index_NameForStorable_LastGen)
  next
    case IndexTypeListGen
    from assms(1) IndexTypeListGen obtain n l where n: "Index_NameForStorable ix obj = Inr n"
      and l: "stm (''/index/'' @ n) = ListData l" "sorted_bytes l" "marshalGen g \<in> set l"
      by (auto simp: index_settled_def split: sum.splits)
    show ?thesis
    proof (cases "n = n'")
      case True
      with l list(3) have "l' = l" by auto
      moreover have "Add l (marshalGen g) = l" using l by (simp add: Add_present)
      ultimately show ?thesis using True l n IndexTypeListGen list(4)
        by (simp add: index_settled_def)
    next
      case False
      with l n IndexTypeListGen list(4) show ?thesis
        by (simp add: index_settled_def)
    qed
  qed
qed

lemma Save_indexes_keeps_settled:
  assumes "index_settled ix obj g stm" "Save_indexes ixs p obj g stm = Inr t"
  shows "index_settled ix obj g t"
  using assms
proof (induction ixs arbitrary: stm)
  case Nil
  then show ?case by simp
next
  case (Cons ix' ixs)
  from Cons.prems(2) obtain stm' where s: "Save_index ix' p obj g stm = Inr stm'"
      and r: "Save_indexes ixs p obj g stm' = Inr t"
    by (auto split: sum.splits)
  from Save_index_keeps_settled[OF Cons.prems(1) s] r show ?case by (rule Cons.IH)
qed

lemma Save_indexes_settles:
  assumes "Save_indexes ixs p obj g stm = Inr t" "lists_sorted stm"
  shows "(\<forall>ix \<in> set ixs. index_settled ix obj g t) \<and> lists_sorted t"
  using assms
proof (induction ixs arbitrary: stm)
  case Nil
  then show ?case by simp
next
  case (Cons ix ixs)
  from Cons.prems(1) obtain stm' where s: "Save_index ix p obj g stm = Inr stm'"
      and r: "Save_indexes ixs p obj g stm' = Inr t"
    by (auto split: sum.splits)
  from Save_index_settles[OF s Cons.prems(2)]
  have a: "index_settled ix obj g stm'" and b: "lists_sorted stm'" by simp_all
  from Cons.IH[OF r b] Save_indexes_keeps_settled[OF a r] show ?case by simp
qed

lemma Save_index_settled_noop:
  assumes "index_settled ix obj g t"
  shows "Save_index ix p obj g t = Inr t"
proof (cases "Type ix")
  case IndexTypeUndef
  with assms show ?thesis by (auto simp: index_settled_def split: sum.splits)
next
  case IndexTypeLastGen
  with assms have "t (''/index/lastgen/'' @ KeyForStorable obj) = Raw (marshalGen g)"
    by (simp add: index_settled_def Index_NameForStorable_LastGen)
  then have "t(''/index/lastgen/'' @ KeyForStorable obj := Raw (marshalGen g)) = t"
    by (metis fun_upd_triv)
  with IndexTypeLastGen show ?thesis by (simp add: Save_index_LastGen)
next
  case IndexTypeListGen
  from assms IndexTypeListGen obtain n l where n: "Index_NameForStorable ix obj = Inr n"
    and l: "t (''/index/'' @ n) = ListData l" "sorted_bytes l" "marshalGen g \<in> set l"
    by (auto simp: index_settled_def split: sum.splits)
  have "Add l (marshalGen g) = l" using l by (simp add: Add_present)
  moreover have "t(''/index/'' @ n := ListData l) = t" using l(1) by (metis fun_upd_triv)
  ultimately show ?thesis using n l(1) IndexTypeListGen
    by (simp add: Save_index_def Let_def unmarshal_IndexValueList_def)
qed

lemma Save_indexes_settled_noop:
  "\<forall>ix \<in> set ixs. index_settled ix obj g t \<Longrightarrow> Save_indexes ixs p obj g t = Inr t"
  by (induction ixs) (simp_all add: Save_index_settled_noop)

lemma Save_indexes_twice:
  assumes "Save_indexes ixs p obj g stm = Inr t" "lists_sorted stm"
  shows "Save_indexes ixs p' obj g t = Inr t"
  using Save_indexes_settles[OF assms] by (simp add: Save_indexes_settled_noop)

lemma Save_write_object:
  assumes "Save_write indexes key p stm obj = Inr t"
  shows "t (''/object'' @ key @ ''@'' @ Generation_String (GetGeneration obj)) = ObjectData obj"
proof -
  let ?K = "''/object'' @ key @ ''@'' @ Generation_String (GetGeneration obj)"
  from assms have "Save_indexes (map snd indexes) p obj (GetGeneration obj) (stm(?K := ObjectData obj)) = Inr t"
    by (simp add: Save_write_def Let_def)
  from Save_indexes_frame[OF this, of ?K] show ?thesis by simp
qed

lemma lists_sorted_upd_object: "lists_sorted stm \<Longrightarrow> lists_sorted (stm(K := ObjectData obj))"
  by (simp add: lists_sorted_def)

lemma Save_write_settles:
  assumes "Save_write indexes key p stm obj = Inr t" "lists_sorted stm"
  shows "(\<forall>ix \<in> set (map snd indexes). index_settled ix obj (GetGeneration obj) t) \<and> lists_sorted t"
proof -
  let ?K = "''/object'' @ key @ ''@'' @ Generation_String (GetGeneration obj)"
  from assms have r: "Save_indexes (map snd indexes) p obj (GetGeneration obj) (stm(?K := ObjectData obj)) = Inr t"
    by (simp add: Save_write_def Let_def)
  from Save_indexes_settles[OF r lists_sorted_upd_object[OF assms(2)]] show ?thesis .
qed

lemma Save_write_twice:
  assumes "Save_write indexes key p stm obj = Inr t" "lists_sorted stm"
  shows "Save_write indexes key p' t obj = Inr t"
proof -
  let ?K = "''/object'' @ key @ ''@'' @ Generation_String (GetGeneration obj)"
  have "t(?K := ObjectData obj) = t" using Save_write_object[OF assms(1)] by (metis fun_upd_triv)
  moreover have "Save_indexes (map snd indexes) p' obj (GetGeneration obj) t = Inr t"
    using Save_write_settles[OF assms] by (simp add: Save_indexes_settled_noop)
  ultimately show ?thesis by (simp add: Save_write_def Let_def)
qed


section \<open>The transaction run twice\<close>

lemma SetGeneration_same: "GetGeneration obj = g \<Longrightarrow> SetGeneration obj g = obj"
  by (simp add: SetGeneration_def)

lemma GetGeneration_SetGeneration: "GetGeneration (SetGeneration obj g) = g"
  by (simp add: SetGeneration_def)

lemma Indexes_NameForStorable_SetGeneration:
  "Indexes_NameForStorable indexes n (SetGeneration obj g) = Indexes_NameForStorable indexes n obj"
  by (simp add: Indexes_NameForStorable_def Index_NameForStorable_SetGeneration split: option.splits)

lemma Indexes_NameForStorable_LastGen:
  "map_of indexes LastGenIndex = Some ix \<Longrightarrow> Type ix = IndexTypeLastGen \<Longrightarrow>
   Indexes_NameForStorable indexes LastGenIndex obj = Inr (''lastgen/'' @ KeyForStorable obj)"
  by (simp add: Indexes_NameForStorable_def Index_NameForStorable_LastGen)

lemma marshalGen_nonempty: "marshalGen g \<noteq> []"
  by (simp add: marshalGen_def Generation_String_nonempty)

lemma Save_apply_default_after_write:
  assumes w: "Save_write indexes key p stm obj = Inr t" and srt: "lists_sorted stm"
    and ix: "map_of indexes LastGenIndex = Some ix" "Type ix = IndexTypeLastGen"
  shows "Save_apply indexes key False t obj = (Inr t, obj)"
proof -
  let ?g = "GetGeneration obj"
  have mem: "ix \<in> set (map snd indexes)"
    using ix(1) by (metis map_of_SomeD image_eqI set_map snd_conv)
  from Save_write_settles[OF w srt] mem have "index_settled ix obj ?g t" by blast
  with ix(2) have last: "t (''/index/'' @ ''lastgen/'' @ KeyForStorable obj) = Raw (marshalGen ?g)"
    by (simp add: index_settled_def Index_NameForStorable_LastGen)
  have obj: "t (''/object'' @ key @ ''@'' @ Generation_String ?g) = ObjectData obj"
    by (rule Save_write_object[OF w])
  show ?thesis
    using last obj
    by (simp add: Save_apply_def Indexes_NameForStorable_LastGen[OF ix] Let_def
        marshalGen_nonempty unmarshalGen_marshalGen unmarshal_storable_def SetGeneration_same
        del: append.simps)
qed

lemma Save_apply_replace_after_write:
  assumes w: "Save_write indexes key p stm obj = Inr t" and srt: "lists_sorted stm"
    and g: "GetGeneration obj \<noteq> LastOrEmptyGen"
  shows "Save_apply indexes key True t obj = (Inr t, obj)"
proof -
  have obj: "t (''/object'' @ key @ ''@'' @ Generation_String (GetGeneration obj)) = ObjectData obj"
    by (rule Save_write_object[OF w])
  have "Save_write indexes key None t obj = Inr t"
    by (rule Save_write_twice[OF w srt])
  with obj g show ?thesis
    by (simp add: Save_apply_def Let_def unmarshal_storable_def del: append.simps)
qed

lemma Save_write_prevObj:
  "Save_write indexes key p stm obj = Save_write indexes key None stm obj"
  by (simp add: Save_write_def Let_def Save_indexes_prevObj[of _ p])

lemma Save_apply_twice:
  assumes first: "Save_apply indexes key rep stm obj = (res, obj1)"
    and srt: "lists_sorted stm"
    and fth: "generations_faithful stm key"
    and ix: "map_of indexes LastGenIndex = Some ix" "Type ix = IndexTypeLastGen"
  shows "Save_apply indexes key rep (case res of Inl _ \<Rightarrow> stm | Inr t \<Rightarrow> t) obj1 = (res, obj1)"
proof (cases rep)
  case True
  show ?thesis
  proof (cases res)
    case (Inl e)
    with first True have "obj1 = obj"
      by (auto simp: Save_apply_def Let_def split: if_splits sum.splits)
    with first Inl show ?thesis by simp
  next
    case (Inr t)
    with first True have o: "obj1 = obj" and g: "GetGeneration obj \<noteq> LastOrEmptyGen"
      and w: "Save_write indexes key None stm obj = Inr t"
      by (auto simp: Save_apply_def Let_def split: if_splits sum.splits)
    from Save_apply_replace_after_write[OF w srt g] True Inr o show ?thesis by simp
  qed
next
  case False
  note nm = Indexes_NameForStorable_LastGen[OF ix]
  let ?L = "stm (''/index/'' @ ''lastgen/'' @ KeyForStorable obj)"
  show ?thesis
  proof (cases "?L = Raw []")
    case True
    let ?o1 = "SetGeneration obj FirstGen"
    from first False True have o: "obj1 = ?o1" and w: "res = Save_write indexes key None stm ?o1"
      by (auto simp: Save_apply_def nm Let_def simp del: append.simps)
    show ?thesis
    proof (cases res)
      case (Inl e)
      have "Save_apply indexes key False stm ?o1 = (Save_write indexes key None stm ?o1, ?o1)"
        using True
        by (simp add: Save_apply_def nm Let_def KeyForStorable_SetGeneration
            SetGeneration_same GetGeneration_SetGeneration del: append.simps)
      with Inl w o False show ?thesis by simp
    next
      case (Inr t)
      with w have "Save_write indexes key None stm ?o1 = Inr t" by simp
      from Save_apply_default_after_write[OF this srt ix] Inr o False show ?thesis by simp
    qed
  next
    case nonempty: False
    show ?thesis
    proof (cases "unmarshalGen ?L")
      case (Inl e)
      with first False nonempty have "obj1 = obj" "res = Inl e"
        by (auto simp: Save_apply_def nm Let_def simp del: append.simps)
      with first show ?thesis by simp
    next
      case (Inr lastGen)
      let ?O = "stm (''/object'' @ key @ ''@'' @ Generation_String lastGen)"
      show ?thesis
      proof (cases "?O")
        case (Raw s)
        with first False nonempty Inr have "obj1 = obj" "\<exists>e. res = Inl e"
          by (auto simp: Save_apply_def nm Let_def unmarshal_storable_def simp del: append.simps
              split: if_splits)
        with first show ?thesis by auto
      next
        case (ListData l)
        with first False nonempty Inr have "obj1 = obj" "\<exists>e. res = Inl e"
          by (auto simp: Save_apply_def nm Let_def unmarshal_storable_def simp del: append.simps
              split: if_splits)
        with first show ?thesis by auto
      next
        case (ObjectData prevObj)
        with fth have pg: "GetGeneration prevObj = lastGen"
          by (simp add: generations_faithful_def)
        show ?thesis
        proof (cases "prevObj = obj")
          case True
          with first False nonempty Inr ObjectData
          have "res = Inr stm" "obj1 = SetGeneration obj lastGen"
            by (auto simp: Save_apply_def nm Let_def unmarshal_storable_def simp del: append.simps)
          moreover have "SetGeneration obj lastGen = obj" using pg True by (simp add: SetGeneration_same)
          ultimately show ?thesis using first by simp
        next
          case diff: False
          let ?o1 = "SetGeneration obj (Next lastGen)"
          from first False nonempty Inr ObjectData diff
          have o: "obj1 = ?o1" and w: "res = Save_write indexes key (Some prevObj) stm ?o1"
            by (auto simp: Save_apply_def nm Let_def unmarshal_storable_def simp del: append.simps)
          show ?thesis
          proof (cases res)
            case (Inl e)
            have "prevObj \<noteq> ?o1"
            proof
              assume "prevObj = ?o1"
              then have "GetGeneration prevObj = GetGeneration ?o1" by simp
              then show False using pg by (simp add: GetGeneration_SetGeneration Next_def)
            qed
            then have "Save_apply indexes key False stm ?o1 = (Save_write indexes key (Some prevObj) stm ?o1, ?o1)"
              using nonempty Inr ObjectData
              by (simp add: Save_apply_def nm Let_def KeyForStorable_SetGeneration unmarshal_storable_def
                  SetGeneration_same GetGeneration_SetGeneration del: append.simps)
            with Inl w o False show ?thesis by simp
          next
            case (Inr t)
            with w have "Save_write indexes key (Some prevObj) stm ?o1 = Inr t" by simp
            from Save_apply_default_after_write[OF this srt ix] Inr o False show ?thesis by simp
          qed
        qed
      qed
    qed
  qed
qed


section \<open>The indexes of a kind\<close>

lemma map_of_IndexesFor_fields:
  "k \<notin> fst ` set fs \<Longrightarrow> map_of (IndexesFor_fields info i fs indexes) k = map_of indexes k"
proof (induction fs arbitrary: i indexes)
  case Nil
  show ?case by simp
next
  case (Cons f fs)
  obtain name tag where f: "f = (name, tag)" by (cases f)
  from Cons.prems f have k: "k \<noteq> name" "k \<notin> fst ` set fs" by auto
  show ?case using Cons.IH[OF k(2)] k(1) by (simp add: f update_conv')
qed

lemma IndexesFor_build_LastGen:
  assumes "Versioned info" "field_names_nonempty info"
  shows "\<exists>ix. map_of (fst (IndexesFor_build info)) LastGenIndex = Some ix
              \<and> Type ix = IndexTypeLastGen"
proof (cases "case New_type info of PtrTo elem \<Rightarrow> elem | other \<Rightarrow> other")
  case (StructType nm fs)
  with assms(2) have ne: "LastGenIndex \<notin> fst ` set fs"
    by (simp add: field_names_nonempty_def LastGenIndex_def)
  from assms(1) StructType have "fst (IndexesFor_build info) = IndexesFor_fields info 0 fs
      [(LastGenIndex, \<lparr>Type = IndexTypeLastGen, Field = [], ValueTransform = None, rFieldID = 0\<rparr>)]"
    by (simp add: IndexesFor_build_def Let_def)
  then show ?thesis using map_of_IndexesFor_fields[OF ne] by simp
next
  case (PtrTo t)
  with assms(1) show ?thesis by (simp add: IndexesFor_build_def Let_def)
next
  case (SliceOf t)
  with assms(1) show ?thesis by (simp add: IndexesFor_build_def Let_def)
next
  case (BasicType n)
  with assms(1) show ?thesis by (simp add: IndexesFor_build_def Let_def)
qed

lemma IndexesFor_Inr:
  assumes "IndexesFor cache info = (cache', Inr indexes)" "cache_made_for cache info"
  shows "indexes = fst (IndexesFor_build info)"
    and "cache' = cache(TypeInfo_Kind info \<mapsto> indexes)"
    and "cache (TypeInfo_Kind info) = None \<longrightarrow> snd (IndexesFor_build info) = None"
  using assms
  by (auto simp: IndexesFor_def cache_made_for_def split: option.splits prod.splits)

lemma IndexesFor_again:
  "IndexesFor cache info = (cache', Inr indexes) \<Longrightarrow>
   IndexesFor cache' info = (cache', Inr indexes)"
  by (auto simp: IndexesFor_def split: option.splits prod.splits)

lemma IndexesFor_LastGen:
  assumes "IndexesFor cache info = (cache', Inr indexes)" "cache_made_for cache info"
    "Versioned info" "field_names_nonempty info"
  shows "\<exists>ix. map_of indexes LastGenIndex = Some ix \<and> Type ix = IndexTypeLastGen"
  using IndexesFor_build_LastGen[OF assms(3,4)] IndexesFor_Inr(1)[OF assms(1,2)] by simp

lemma Save_apply_object_frame:
  assumes "Save_apply indexes key rep stm obj = (Inr t, obj1)"
    and "K \<noteq> ''/object'' @ key @ ''@'' @ Generation_String (GetGeneration obj1)"
    and "\<And>n. K \<noteq> ''/index/'' @ n"
  shows "t K = stm K"
proof -
  have w: "t K = stm K" if "Save_write indexes key p stm obj1 = Inr t" for p
  proof -
    let ?K = "''/object'' @ key @ ''@'' @ Generation_String (GetGeneration obj1)"
    from that have "Save_indexes (map snd indexes) p obj1 (GetGeneration obj1) (stm(?K := ObjectData obj1)) = Inr t"
      by (simp add: Save_write_def Let_def)
    from Save_indexes_frame[OF this assms(3)] assms(2) show ?thesis by simp
  qed
  from assms(1) consider (same) "t = stm" | (wr) p where "Save_write indexes key p stm obj1 = Inr t"
    by (auto simp: Save_apply_def Let_def split: if_splits sum.splits)
  then show ?thesis using w by cases auto
qed


section \<open>When the index loop succeeds\<close>

lemma index_usable_name:
  assumes "index_usable ix obj" "Type ix = IndexTypeListGen"
  shows "\<exists>n. Index_NameForStorable ix obj = Inr n"
  using assms
  by (auto simp: index_usable_def Index_NameForStorable_def Index_NameForValue_def
      Interface_def IndexType_String_def Let_def split: fvalue.splits)

lemma Save_index_succeeds:
  assumes "index_usable ix obj" "list_entries_readable stm"
  shows "\<exists>t. Save_index ix p obj g stm = Inr t \<and> list_entries_readable t"
proof (cases "Type ix = IndexTypeLastGen")
  case True
  have "list_entries_readable (stm(''/index/lastgen/'' @ KeyForStorable obj := Raw (marshalGen g)))"
    using assms(2) by (auto simp: list_entries_readable_def)
  with True show ?thesis by (simp add: Save_index_LastGen)
next
  case False
  with assms(1) have lg: "Type ix = IndexTypeListGen" by (auto simp: index_usable_def)
  from index_usable_name[OF assms(1) lg] obtain n where n: "Index_NameForStorable ix obj = Inr n"
    by blast
  from Index_NameForStorable_ListGen[OF lg n] assms(2)
  have rd: "stm (''/index/'' @ n) = Raw [] \<or> (\<exists>l. stm (''/index/'' @ n) = ListData l)"
    unfolding list_entries_readable_def by blast
  then obtain l where t: "Save_index ix p obj g stm = Inr (stm(''/index/'' @ n := ListData l))"
    using lg n by (auto simp: Save_index_def Let_def unmarshal_IndexValueList_def)
  have "list_entries_readable (stm(''/index/'' @ n := ListData l))"
    using assms(2) by (auto simp: list_entries_readable_def)
  with t show ?thesis by blast
qed

lemma Save_indexes_succeeds:
  assumes "\<forall>ix \<in> set ixs. index_usable ix obj" "list_entries_readable stm"
  shows "\<exists>t. Save_indexes ixs p obj g stm = Inr t"
  using assms
proof (induction ixs arbitrary: stm)
  case Nil
  show ?case by simp
next
  case (Cons ix ixs)
  from Save_index_succeeds[of ix obj stm p g] Cons.prems
  obtain t where t: "Save_index ix p obj g stm = Inr t" "list_entries_readable t" by auto
  from Cons.IH[OF _ t(2)] Cons.prems(1) obtain t' where "Save_indexes ixs p obj g t = Inr t'"
    by auto
  with t(1) show ?case by simp
qed

lemma in_set_update: "x \<in> set (AList.update k v al) \<Longrightarrow> x = (k, v) \<or> x \<in> set al"
  by (induction al) (auto split: if_splits)

lemma IndexesFor_fields_usable:
  assumes "(n, ix) \<in> set (IndexesFor_fields info i fs indexes)"
  shows "(n, ix) \<in> set indexes \<or>
         Type ix = IndexTypeListGen \<and> ValueTransform ix \<noteq> None
           \<and> (\<exists>j < length fs. rFieldID ix = i + j \<and> strings_Contains (snd (fs ! j)) ''index'')"
  using assms
proof (induction fs arbitrary: i indexes)
  case Nil
  then show ?case by simp
next
  case (Cons f fs)
  obtain name tag where f: "f = (name, tag)" by (cases f)
  have step: "Type ix = IndexTypeListGen \<and> ValueTransform ix \<noteq> None
           \<and> (\<exists>j < length (f # fs). rFieldID ix = i + j \<and> strings_Contains (snd ((f # fs) ! j)) ''index'')"
    if "Type ix = IndexTypeListGen \<and> ValueTransform ix \<noteq> None
           \<and> (\<exists>j < length fs. rFieldID ix = (i + 1) + j \<and> strings_Contains (snd (fs ! j)) ''index'')"
  proof -
    from that obtain j where j: "j < length fs" "rFieldID ix = (i + 1) + j"
      "strings_Contains (snd (fs ! j)) ''index''" by blast
    then have "Suc j < length (f # fs) \<and> rFieldID ix = i + Suc j
        \<and> strings_Contains (snd ((f # fs) ! Suc j)) ''index''" by simp
    with that show ?thesis by blast
  qed
  show ?case
  proof (cases "strings_Contains tag ''index''")
    case True
    let ?ix = "\<lparr>Type = IndexTypeListGen, Field = name,
             ValueTransform =
               Some (case IndexValueTransforms info name of
                       None \<Rightarrow> noopValueTransform
                     | Some transformer \<Rightarrow> transformer),
             rFieldID = i\<rparr>"
    from Cons.prems True f
    have "(n, ix) \<in> set (IndexesFor_fields info (i + 1) fs (AList.update name ?ix indexes))"
      by simp
    from Cons.IH[OF this]
    consider (new) "(n, ix) = (name, ?ix)" | (old) "(n, ix) \<in> set indexes"
      | (later) "Type ix = IndexTypeListGen \<and> ValueTransform ix \<noteq> None
           \<and> (\<exists>j < length fs. rFieldID ix = (i + 1) + j \<and> strings_Contains (snd (fs ! j)) ''index'')"
      by (auto dest!: in_set_update)
    then show ?thesis
    proof cases
      case new
      then have "Type ix = IndexTypeListGen" "ValueTransform ix \<noteq> None" "rFieldID ix = i + 0"
        by auto
      moreover have "0 < length (f # fs)" "strings_Contains (snd ((f # fs) ! 0)) ''index''"
        using True f by simp_all
      ultimately show ?thesis by blast
    next
      case old
      then show ?thesis by simp
    next
      case later
      from step[OF this] show ?thesis by simp
    qed
  next
    case False
    with Cons.prems f have "(n, ix) \<in> set (IndexesFor_fields info (i + 1) fs indexes)" by simp
    from Cons.IH[OF this] step show ?thesis by blast
  qed
qed

lemma IndexesFor_usable:
  assumes "has_fields_of info obj" "indexed_fields_exported info obj"
  shows "\<forall>ix \<in> set (map snd (fst (IndexesFor_build info))). index_usable ix obj"
proof
  fix ix assume "ix \<in> set (map snd (fst (IndexesFor_build info)))"
  then obtain n where m: "(n, ix) \<in> set (fst (IndexesFor_build info))" by auto
  from assms(1) obtain nm fs where t: "(case New_type info of PtrTo elem \<Rightarrow> elem | other \<Rightarrow> other) = StructType nm fs"
    by (auto simp: has_fields_of_def split: rtype.splits)
  with assms(1) have len: "length (fieldValues obj) = length fs" by (simp add: has_fields_of_def)
  from t assms(2) have ex: "\<forall>i < length fs. strings_Contains (snd (fs ! i)) ''index''
              \<longrightarrow> (\<exists>value. fieldValues obj ! i = ExportedField value)"
    by (simp add: indexed_fields_exported_def)
  let ?init = "if Versioned info then [(LastGenIndex, \<lparr>Type = IndexTypeLastGen, Field = [], ValueTransform = None, rFieldID = 0\<rparr>)] else []"
  from t have "fst (IndexesFor_build info) = IndexesFor_fields info 0 fs ?init"
    by (simp add: IndexesFor_build_def Let_def)
  with m have "(n, ix) \<in> set (IndexesFor_fields info 0 fs ?init)" by simp
  from IndexesFor_fields_usable[OF this]
  have "(n, ix) \<in> set ?init \<or>
         Type ix = IndexTypeListGen \<and> ValueTransform ix \<noteq> None
           \<and> (\<exists>j < length fs. rFieldID ix = j \<and> strings_Contains (snd (fs ! j)) ''index'')"
    by simp
  then show "index_usable ix obj"
    using len ex by (auto simp: index_usable_def split: if_splits)
qed

lemma has_fields_of_IndexesFor_build:
  "has_fields_of info obj \<Longrightarrow> snd (IndexesFor_build info) = None"
  by (auto simp: has_fields_of_def IndexesFor_build_def Let_def split: rtype.splits)

lemma has_fields_of_IndexesFor:
  assumes "has_fields_of info obj" "cache_made_for cache info"
  shows "\<exists>cache'. IndexesFor cache info = (cache', Inr (fst (IndexesFor_build info)))"
  using assms has_fields_of_IndexesFor_build[OF assms(1)]
  by (auto simp: IndexesFor_def cache_made_for_def split: option.splits prod.splits)

lemma index_usable_SetGeneration: "index_usable ix (SetGeneration obj g) = index_usable ix obj"
  by (simp add: index_usable_def SetGeneration_def)

lemma list_entries_readable_upd_object:
  "list_entries_readable stm \<Longrightarrow> list_entries_readable (stm(''/object'' @ x := v))"
  by (simp add: list_entries_readable_def)

lemma Save_write_succeeds:
  assumes "\<forall>ix \<in> set (map snd indexes). index_usable ix obj" "list_entries_readable stm"
  shows "\<exists>t. Save_write indexes key p stm obj = Inr t"
  using Save_indexes_succeeds[OF assms(1) list_entries_readable_upd_object[OF assms(2)]]
  by (simp add: Save_write_def Let_def)


section \<open>What the index loop changes\<close>

lemma listgen_keys_Cons:
  "listgen_keys (ix # ixs) obj =
     (case Index_NameForStorable ix obj of
        Inr n \<Rightarrow> if Type ix = IndexTypeListGen then insert (''/index/'' @ n) (listgen_keys ixs obj)
                 else listgen_keys ixs obj
      | Inl _ \<Rightarrow> listgen_keys ixs obj)"
  by (auto simp: listgen_keys_def split: sum.splits)

lemma listgen_keys_Nil: "listgen_keys [] obj = {}"
  by (simp add: listgen_keys_def)

lemma lastgen_key_not_listgen:
  "''/index/lastgen/'' @ key \<notin> listgen_keys ixs obj"
  by (auto simp: listgen_keys_def dest: ListGen_name_not_lastgen)

lemma object_key_not_listgen: "''/object'' @ x \<notin> listgen_keys ixs obj"
  by (auto simp: listgen_keys_def)

lemma Save_indexes_effect:
  assumes "Save_indexes ixs p obj g stm = Inr t"
  shows "(\<forall>K \<in> listgen_keys ixs obj. listed t K = insert (marshalGen g) (listed stm K))
       \<and> (\<forall>K. K \<notin> listgen_keys ixs obj
              \<longrightarrow> K \<noteq> ''/index/lastgen/'' @ KeyForStorable obj
                  \<or> (\<forall>ix \<in> set ixs. Type ix \<noteq> IndexTypeLastGen)
              \<longrightarrow> t K = stm K)
       \<and> ((\<exists>ix \<in> set ixs. Type ix = IndexTypeLastGen)
              \<longrightarrow> t (''/index/lastgen/'' @ KeyForStorable obj) = Raw (marshalGen g))
       \<and> (\<forall>ix \<in> set ixs. Type ix = IndexTypeListGen
              \<longrightarrow> (\<exists>n. Index_NameForStorable ix obj = Inr n))"
  using assms
proof (induction ixs arbitrary: stm)
  case Nil
  then show ?case by (simp add: listgen_keys_Nil)
next
  case (Cons ix ixs)
  let ?L = "''/index/lastgen/'' @ KeyForStorable obj"
  let ?g = "marshalGen g"
  from Cons.prems obtain stm1 where s: "Save_index ix p obj g stm = Inr stm1"
      and r: "Save_indexes ixs p obj g stm1 = Inr t"
    by (cases "Save_index ix p obj g stm") simp_all
  note IH = Cons.IH[OF r]
  have IH1: "listed t K = insert ?g (listed stm1 K)" if "K \<in> listgen_keys ixs obj" for K
    by (rule IH[THEN conjunct1, rule_format, OF that])
  have IH2: "t K = stm1 K"
    if "K \<notin> listgen_keys ixs obj" "K \<noteq> ?L \<or> (\<forall>ix \<in> set ixs. Type ix \<noteq> IndexTypeLastGen)" for K
    by (rule IH[THEN conjunct2, THEN conjunct1, rule_format, OF that])
  have IH3: "t ?L = Raw ?g" if "\<exists>ix \<in> set ixs. Type ix = IndexTypeLastGen"
    by (rule IH[THEN conjunct2, THEN conjunct2, THEN conjunct1, rule_format, OF that])
  have IH4: "\<exists>n. Index_NameForStorable ix' obj = Inr n"
    if "ix' \<in> set ixs" "Type ix' = IndexTypeListGen" for ix'
    by (rule IH[THEN conjunct2, THEN conjunct2, THEN conjunct2, rule_format, OF that])
  have Lnot: "?L \<notin> listgen_keys ixs obj"
    by (rule lastgen_key_not_listgen)
  from s show ?case
  proof (cases rule: Save_index_Inr_cases)
    case last
    have keys: "listgen_keys (ix # ixs) obj = listgen_keys ixs obj"
      using last(1) by (simp add: listgen_keys_Cons Index_NameForStorable_LastGen)
    have b: "stm1 K = stm K" if "K \<noteq> ?L" for K using last(2) that by simp
    have 1: "\<forall>K \<in> listgen_keys ixs obj. listed t K = insert ?g (listed stm K)"
    proof
      fix K assume K: "K \<in> listgen_keys ixs obj"
      with Lnot have "K \<noteq> ?L" by auto
      then have "listed stm1 K = listed stm K" using b by (simp add: listed_def)
      with IH1[OF K] show "listed t K = insert ?g (listed stm K)" by simp
    qed
    have 2: "\<forall>K. K \<notin> listgen_keys ixs obj
              \<longrightarrow> K \<noteq> ?L \<or> (\<forall>ix' \<in> set (ix # ixs). Type ix' \<noteq> IndexTypeLastGen)
              \<longrightarrow> t K = stm K"
    proof (intro allI impI)
      fix K assume K: "K \<notin> listgen_keys ixs obj"
        and o: "K \<noteq> ?L \<or> (\<forall>ix' \<in> set (ix # ixs). Type ix' \<noteq> IndexTypeLastGen)"
      from o last(1) have n: "K \<noteq> ?L" by auto
      from n have "t K = stm1 K" using IH2[OF K] by simp
      with b[OF n] show "t K = stm K" by simp
    qed
    have 3: "t ?L = Raw ?g"
    proof (cases "\<exists>ix \<in> set ixs. Type ix = IndexTypeLastGen")
      case True
      then show ?thesis by (rule IH3)
    next
      case False
      then have "\<forall>ix \<in> set ixs. Type ix \<noteq> IndexTypeLastGen" by simp
      then have "t ?L = stm1 ?L" using IH2[OF Lnot] by simp
      then show ?thesis using last(2) by simp
    qed
    have 4: "\<forall>ix' \<in> set (ix # ixs). Type ix' = IndexTypeListGen
              \<longrightarrow> (\<exists>n. Index_NameForStorable ix' obj = Inr n)"
      using IH4 last(1) by auto
    show ?thesis unfolding keys using 1 2 3 4 by blast
  next
    case (list n l)
    let ?K = "''/index/'' @ n"
    have keys: "listgen_keys (ix # ixs) obj = insert ?K (listgen_keys ixs obj)"
      using list(1,2) by (simp add: listgen_keys_Cons)
    have nl: "?K \<noteq> ?L" using ListGen_name_not_lastgen[OF list(1,2)] by simp
    have a: "listed stm1 ?K = insert ?g (listed stm ?K)"
      using list(3,4) by (auto simp: listed_def set_Add)
    have b: "stm1 K = stm K" if "K \<noteq> ?K" for K using list(4) that by simp
    have 1: "\<forall>K \<in> insert ?K (listgen_keys ixs obj). listed t K = insert ?g (listed stm K)"
    proof
      fix K assume K: "K \<in> insert ?K (listgen_keys ixs obj)"
      show "listed t K = insert ?g (listed stm K)"
      proof (cases "K \<in> listgen_keys ixs obj")
        case True
        from IH1[OF True] have e: "listed t K = insert ?g (listed stm1 K)" .
        show ?thesis
        proof (cases "K = ?K")
          case True
          with e a show ?thesis by simp
        next
          case False
          from b[OF False] have "listed stm1 K = listed stm K" by (simp add: listed_def)
          with e show ?thesis by simp
        qed
      next
        case False
        with K have k: "K = ?K" by simp
        have "K \<noteq> ?L" using nl k by simp
        then have "t K = stm1 K" using IH2[OF False] by simp
        then have "listed t K = listed stm1 K" by (simp add: listed_def)
        with a k show ?thesis by simp
      qed
    qed
    have 2: "\<forall>K. K \<notin> insert ?K (listgen_keys ixs obj)
              \<longrightarrow> K \<noteq> ?L \<or> (\<forall>ix' \<in> set (ix # ixs). Type ix' \<noteq> IndexTypeLastGen)
              \<longrightarrow> t K = stm K"
    proof (intro allI impI)
      fix K assume K: "K \<notin> insert ?K (listgen_keys ixs obj)"
        and o: "K \<noteq> ?L \<or> (\<forall>ix' \<in> set (ix # ixs). Type ix' \<noteq> IndexTypeLastGen)"
      from K have K1: "K \<notin> listgen_keys ixs obj" and K2: "K \<noteq> ?K" by auto
      from o have "K \<noteq> ?L \<or> (\<forall>ix' \<in> set ixs. Type ix' \<noteq> IndexTypeLastGen)" by auto
      from IH2[OF K1 this] b[OF K2] show "t K = stm K" by simp
    qed
    have 3: "(\<exists>ix' \<in> set (ix # ixs). Type ix' = IndexTypeLastGen) \<longrightarrow> t ?L = Raw ?g"
    proof
      assume "\<exists>ix' \<in> set (ix # ixs). Type ix' = IndexTypeLastGen"
      with list(1) have "\<exists>ix' \<in> set ixs. Type ix' = IndexTypeLastGen" by auto
      then show "t ?L = Raw ?g" by (rule IH3)
    qed
    have 4: "\<forall>ix' \<in> set (ix # ixs). Type ix' = IndexTypeListGen
              \<longrightarrow> (\<exists>n. Index_NameForStorable ix' obj = Inr n)"
      using IH4 list(2) by auto
    show ?thesis unfolding keys using 1 2 3 4 by blast
  qed
qed


section \<open>A save that assigns a new generation\<close>

lemma Save_apply_default_assigned:
  assumes ap: "Save_apply indexes key False stm obj = (Inr t, obj')"
    and ix: "map_of indexes LastGenIndex = Some ix" "Type ix = IndexTypeLastGen"
    and assigned: "unmarshalGen (stm (''/index/'' @ ''lastgen/'' @ KeyForStorable obj))
                     \<noteq> Inr (GetGeneration obj')"
  shows "\<exists>p g. obj' = SetGeneration obj g \<and> Save_write indexes key p stm obj' = Inr t"
proof -
  let ?L = "''/index/'' @ ''lastgen/'' @ KeyForStorable obj"
  note name = Indexes_NameForStorable_LastGen[OF ix, of obj]
  show ?thesis
  proof (cases "stm ?L = Raw []")
    case True
    with ap name show ?thesis by (auto simp: Save_apply_def Let_def)
  next
    case False
    with ap name obtain lastGen where lg: "unmarshalGen (stm ?L) = Inr lastGen"
      by (cases "unmarshalGen (stm ?L)") (auto simp: Save_apply_def Let_def)
    let ?O = "stm (''/object'' @ key @ ''@'' @ Generation_String lastGen)"
    from ap name False lg have ne: "?O \<noteq> Raw []"
      by (auto simp: Save_apply_def Let_def)
    with ap name False lg obtain prevObj where po: "unmarshal_storable ?O = Inr prevObj"
      by (cases "unmarshal_storable ?O") (auto simp: Save_apply_def Let_def)
    show ?thesis
    proof (cases "prevObj = obj")
      case True
      with ap name False lg ne po have "obj' = SetGeneration obj lastGen"
        by (auto simp: Save_apply_def Let_def)
      with assigned lg show ?thesis by (simp add: GetGeneration_SetGeneration)
    next
      case diff: False
      with ap name False lg ne po show ?thesis
        by (auto simp: Save_apply_def Let_def)
    qed
  qed
qed

lemma object_key_inject:
  "''/object'' @ key @ ''@'' @ Generation_String g = ''/object'' @ key @ ''@'' @ Generation_String g'
   \<longleftrightarrow> g = g'"
  by (auto dest: Generation_String_inject)

lemma listgen_keys_SetGeneration:
  "listgen_keys ixs (SetGeneration obj g) = listgen_keys ixs obj"
  by (simp add: listgen_keys_def Index_NameForStorable_SetGeneration)


section \<open>The loops and the phases of the handlers\<close>

lemma delete_objects_Inr:
  "delete_objects api user pol os = Inr pol' \<longleftrightarrow>
     (\<forall>i < length os. ManageObject api (foldl (RemoveObject api) pol (take i os)) user (os ! i) = None)
     \<and> pol' = foldl (RemoveObject api) pol os"
proof (induction os arbitrary: pol)
  case Nil
  show ?case by auto
next
  case (Cons obj os)
  show ?case
  proof (cases "ManageObject api pol user obj")
    case (Some err)
    then have "\<not> (\<forall>i < length (obj # os).
        ManageObject api (foldl (RemoveObject api) pol (take i (obj # os))) user ((obj # os) ! i) = None)"
      by (auto intro!: exI[of _ 0])
    with Some show ?thesis by simp
  next
    case None
    have "(\<forall>i < length (obj # os).
        ManageObject api (foldl (RemoveObject api) pol (take i (obj # os))) user ((obj # os) ! i) = None)
      \<longleftrightarrow> (\<forall>i < length os.
        ManageObject api (foldl (RemoveObject api) (RemoveObject api pol obj) (take i os)) user (os ! i) = None)"
      (is "?A \<longleftrightarrow> ?B")
    proof
      assume a: ?A
      show ?B
      proof (intro allI impI)
        fix i assume "i < length os"
        then have "Suc i < length (obj # os)" by simp
        from a[rule_format, OF this] show "ManageObject api (foldl (RemoveObject api) (RemoveObject api pol obj) (take i os)) user (os ! i) = None"
          by simp
      qed
    next
      assume b: ?B
      show ?A
      proof (intro allI impI)
        fix i assume i: "i < length (obj # os)"
        show "ManageObject api (foldl (RemoveObject api) pol (take i (obj # os))) user ((obj # os) ! i) = None"
        proof (cases i)
          case 0
          with None show ?thesis by simp
        next
          case (Suc k)
          with i have "k < length os" by simp
          from b[rule_format, OF this] Suc show ?thesis by simp
        qed
      qed
    qed
    with None Cons.IH[of "RemoveObject api pol obj"] show ?thesis by simp
  qed
qed

lemma update_objects_Inr:
  "update_objects api user pol os = Inr pol' \<Longrightarrow>
     \<exists>pols. length pols = length os + 1 \<and> pols ! 0 = pol \<and> pols ! length os = pol'
       \<and> (\<forall>i < length os. ManageObject api (pols ! i) user (os ! i) = None
                          \<and> AddObject api (pols ! i) (os ! i) = Inr (pols ! (i + 1)))"
proof (induction os arbitrary: pol)
  case Nil
  then show ?case by (auto intro!: exI[of _ "[pol]"])
next
  case (Cons obj os)
  from Cons.prems have m: "ManageObject api pol user obj = None"
    by (auto split: option.splits)
  with Cons.prems obtain pol1 where a: "AddObject api pol obj = Inr pol1"
      and r: "update_objects api user pol1 os = Inr pol'"
    by (auto split: sum.splits)
  from Cons.IH[OF r] obtain pols where p: "length pols = length os + 1" "pols ! 0 = pol1"
      "pols ! length os = pol'"
      "\<forall>i < length os. ManageObject api (pols ! i) user (os ! i) = None
                          \<and> AddObject api (pols ! i) (os ! i) = Inr (pols ! (i + 1))"
    by blast
  have "\<forall>i < length (obj # os). ManageObject api ((pol # pols) ! i) user ((obj # os) ! i) = None
        \<and> AddObject api ((pol # pols) ! i) ((obj # os) ! i) = Inr ((pol # pols) ! (i + 1))"
  proof (intro allI impI)
    fix i assume i: "i < length (obj # os)"
    show "ManageObject api ((pol # pols) ! i) user ((obj # os) ! i) = None
        \<and> AddObject api ((pol # pols) ! i) ((obj # os) ! i) = Inr ((pol # pols) ! (i + 1))"
    proof (cases i)
      case 0
      with m a p(2) show ?thesis by simp
    next
      case (Suc k)
      with i have "k < length os" by simp
      with p(4) Suc show ?thesis by simp
    qed
  qed
  with p(1,3) show ?case by (intro exI[of _ "pol # pols"]) simp
qed

lemma Weight_0: "Weight obj = 0 \<longleftrightarrow> GetKind obj = TypeACLRule_Kind"
  by (simp add: Weight_def)

lemma Weight_range: "Weight obj = 0 \<or> Weight obj = 1"
  by (simp add: Weight_def)

lemma sorted_by_Less_ACL_first:
  assumes "sorted_by Less objects os" "i < j" "j < length os" "GetKind (os ! j) = TypeACLRule_Kind"
  shows "GetKind (os ! i) = TypeACLRule_Kind"
proof -
  from assms(1) have "sorted_wrt (\<lambda>a b. \<not> Less b a) os" by (simp add: sorted_by_def)
  with assms(2,3) have "\<not> Less (os ! j) (os ! i)" by (simp add: sorted_wrt_iff_nth_less)
  then have "Weight (os ! i) \<le> Weight (os ! j)" by (simp add: Less_def)
  with assms(4) Weight_range[of "os ! i"] show ?thesis by (auto simp: Weight_0[symmetric])
qed

lemma sorted_by_Reverse_ACL_last:
  assumes "sorted_by (sort_Reverse Less) objects os" "i < j" "j < length os"
    "GetKind (os ! i) = TypeACLRule_Kind"
  shows "GetKind (os ! j) = TypeACLRule_Kind"
proof -
  from assms(1) have "sorted_wrt (\<lambda>a b. \<not> sort_Reverse Less b a) os" by (simp add: sorted_by_def)
  with assms(2,3) have "\<not> sort_Reverse Less (os ! j) (os ! i)" by (simp add: sorted_wrt_iff_nth_less)
  then have "Weight (os ! j) \<le> Weight (os ! i)" by (simp add: Less_def sort_Reverse_def)
  with assms(4) Weight_range[of "os ! j"] show ?thesis by (auto simp: Weight_0[symmetric])
qed

lemma load_latest_Inr:
  "load_latest api reg = Inr (policyGen, desiredState, policyUpdated) \<Longrightarrow>
   \<exists>policy revision g.
      GetPolicy api reg LastOrEmptyGen = Inr (policy, policyGen)
      \<and> GetLastRevisionForPolicy api reg policyGen = Inr revision
      \<and> GetDesiredState api reg revision = Inr desiredState
      \<and> GetPolicy api reg policyGen = Inr (policyUpdated, g)"
  by (auto simp: load_latest_def split: sum.splits prod.splits)

lemma resolve_and_diff_Inr:
  assumes "resolve_and_diff api params logName objects policyGen desiredState policyUpdated = Inr prep"
    and "logLevel = (case ParseLevel api (params ''loglevel'') of Some l \<Rightarrow> l | None \<Rightarrow> WarnLevel)"
  shows "prep_noop prep = (case strconv_ParseBool (params ''noop'') of Some b \<Rightarrow> b | None \<Rightarrow> False)
      \<and> prep_policyGen prep = policyGen \<and> prep_objects prep = objects
      \<and> prep_desiredStateUpdated prep = fst (ResolveAllClaims api policyUpdated logLevel logName)
      \<and> prep_actionPlan prep
          = NewPolicyResolutionDiff api (fst (ResolveAllClaims api policyUpdated logLevel logName))
              desiredState
      \<and> prep_events prep = snd (ResolveAllClaims api policyUpdated logLevel logName)"
  using assms
  by (auto simp: resolve_and_diff_def Let_def split: prod.splits option.splits)

lemma respond_noop:
  "prep_noop prep \<Longrightarrow>
   respond api reg user delete prep =
     (reg,
      Inr \<lparr>PolicyGeneration = prep_policyGen prep, PolicyChanged = False,
           WaitForRevision = MaxGeneration, PlanAsText = AsText api (prep_actionPlan prep),
           EventLog = prep_events prep\<rparr>,
      False)"
  by (simp add: respond_def)

lemma noop_resultI:
  assumes l: "load_latest api reg = Inr (policyGen, desiredState, policy0)"
    and r: "resolve_and_diff api params logName objects policyGen desiredState policyUpdated = Inr prep"
    and n: "prep_noop prep"
  shows "noop_result api reg params logName policyUpdated
           \<lparr>PolicyGeneration = prep_policyGen prep, PolicyChanged = False,
            WaitForRevision = MaxGeneration, PlanAsText = AsText api (prep_actionPlan prep),
            EventLog = prep_events prep\<rparr>"
proof -
  from load_latest_Inr[OF l] obtain policy revision g where
    g: "GetPolicy api reg LastOrEmptyGen = Inr (policy, policyGen)"
       "GetLastRevisionForPolicy api reg policyGen = Inr revision"
       "GetDesiredState api reg revision = Inr desiredState"
    by blast
  note rd = resolve_and_diff_Inr[OF r refl]
  show ?thesis
    unfolding noop_result_def
    apply (rule exI[of _ policy], rule exI[of _ policyGen], rule exI[of _ revision],
        rule exI[of _ desiredState])
    using g rd by (simp add: Let_def split: prod.splits)
qed

lemma load_latest_iff:
  "load_latest api reg = Inr (policyGen, desiredState, policy0)
     \<longleftrightarrow> latest api reg policyGen desiredState policy0"
  by (auto simp: load_latest_def latest_def split: sum.splits prod.splits)

lemma resolve_and_diff_None:
  assumes "resolution_Validate api (fst (resolution api params logName policyUpdated)) policyUpdated
             = None"
  shows "resolve_and_diff api params logName objects policyGen desiredState policyUpdated =
     Inr \<lparr>prep_objects = objects, prep_policyGen = policyGen,
          prep_desiredStateUpdated = fst (resolution api params logName policyUpdated),
          prep_actionPlan =
            NewPolicyResolutionDiff api (fst (resolution api params logName policyUpdated))
              desiredState,
          prep_events = snd (resolution api params logName policyUpdated),
          prep_noop = (case strconv_ParseBool (params ''noop'') of Some b \<Rightarrow> b | None \<Rightarrow> False)\<rparr>"
  using assms
  by (auto simp: resolve_and_diff_def resolution_def request_logLevel_def Let_def
      split: prod.splits)

lemma handlePolicyDelete_prepare_Inr:
  assumes "latest api reg policyGen desiredState policy0"
    and "delete_objects api user policy0 (sort_Sort api (sort_Reverse Less) objects) = Inr policyUpdated"
    and "Validate api policyUpdated = None"
    and "resolution_Validate api (fst (resolution api params ''api-policy-delete'' policyUpdated))
           policyUpdated = None"
  shows "handlePolicyDelete_prepare api reg objects user params =
     Inr \<lparr>prep_objects = sort_Sort api (sort_Reverse Less) objects, prep_policyGen = policyGen,
          prep_desiredStateUpdated = fst (resolution api params ''api-policy-delete'' policyUpdated),
          prep_actionPlan =
            NewPolicyResolutionDiff api
              (fst (resolution api params ''api-policy-delete'' policyUpdated)) desiredState,
          prep_events = snd (resolution api params ''api-policy-delete'' policyUpdated),
          prep_noop = (case strconv_ParseBool (params ''noop'') of Some b \<Rightarrow> b | None \<Rightarrow> False)\<rparr>"
  using assms(1)[folded load_latest_iff] assms(2,3) resolve_and_diff_None[OF assms(4)]
  by (simp add: handlePolicyDelete_prepare_def Let_def)

lemma handlePolicyUpdate_prepare_Inr:
  assumes "latest api reg policyGen desiredState policy0"
    and "update_objects api user policy0 (sort_Sort api Less objects) = Inr policyUpdated"
    and "Validate api policyUpdated = None"
    and "validate_clusters api (sort_Sort api Less objects) = None"
    and "resolution_Validate api (fst (resolution api params ''api-policy-update'' policyUpdated))
           policyUpdated = None"
  shows "handlePolicyUpdate_prepare api reg objects user params =
     Inr \<lparr>prep_objects = sort_Sort api Less objects, prep_policyGen = policyGen,
          prep_desiredStateUpdated = fst (resolution api params ''api-policy-update'' policyUpdated),
          prep_actionPlan =
            NewPolicyResolutionDiff api
              (fst (resolution api params ''api-policy-update'' policyUpdated)) desiredState,
          prep_events = snd (resolution api params ''api-policy-update'' policyUpdated),
          prep_noop = (case strconv_ParseBool (params ''noop'') of Some b \<Rightarrow> b | None \<Rightarrow> False)\<rparr>"
  using assms(1)[folded load_latest_iff] assms(2,3,4) resolve_and_diff_None[OF assms(5)]
  by (simp add: handlePolicyUpdate_prepare_def Let_def)

lemma delete_objects_Inl:
  assumes "i < length os"
    and "\<forall>j < i. ManageObject api (foldl (RemoveObject api) pol (take j os)) user (os ! j) = None"
    and "ManageObject api (foldl (RemoveObject api) pol (take i os)) user (os ! i) = Some err"
  shows "delete_objects api user pol os
           = Inl (Panic (''Error while removing object from policy: '' @ err))"
  using assms
proof (induction os arbitrary: pol i)
  case Nil
  then show ?case by simp
next
  case (Cons obj os)
  show ?case
  proof (cases i)
    case 0
    with Cons.prems(3) show ?thesis by simp
  next
    case (Suc k)
    with Cons.prems(2)[rule_format, of 0] have m: "ManageObject api pol user obj = None" by simp
    have k: "k < length os" using Cons.prems(1) Suc by simp
    have prev: "\<forall>j < k. ManageObject api (foldl (RemoveObject api) (RemoveObject api pol obj) (take j os))
        user (os ! j) = None"
    proof (intro allI impI)
      fix j assume "j < k"
      then have "Suc j < i" using Suc by simp
      from Cons.prems(2)[rule_format, OF this]
      show "ManageObject api (foldl (RemoveObject api) (RemoveObject api pol obj) (take j os))
        user (os ! j) = None" by simp
    qed
    have here: "ManageObject api (foldl (RemoveObject api) (RemoveObject api pol obj) (take k os))
        user (os ! k) = Some err"
      using Cons.prems(3) Suc by simp
    from Cons.IH[OF k prev here] m show ?thesis by simp
  qed
qed

lemma update_objects_chain:
  assumes "length pols = length os + 1" "pols ! 0 = pol"
    and "\<forall>i < length os. ManageObject api (pols ! i) user (os ! i) = None
                          \<and> AddObject api (pols ! i) (os ! i) = Inr (pols ! (i + 1))"
  shows "update_objects api user pol os = Inr (pols ! length os)"
  using assms
proof (induction os arbitrary: pol pols)
  case Nil
  then show ?case by simp
next
  case (Cons obj os)
  from Cons.prems(3)[rule_format, of 0] Cons.prems(2)
  have m: "ManageObject api pol user obj = None" and a: "AddObject api pol obj = Inr (pols ! 1)"
    by simp_all
  have l: "length (tl pols) = length os + 1" using Cons.prems(1) by simp
  have nt: "tl pols ! n = pols ! Suc n" if "n \<le> length os" for n
    using that l by (simp add: nth_tl)
  have z: "tl pols ! 0 = pols ! 1" using nt[of 0] by simp
  have c: "\<forall>i < length os. ManageObject api (tl pols ! i) user (os ! i) = None
                          \<and> AddObject api (tl pols ! i) (os ! i) = Inr (tl pols ! (i + 1))"
  proof (intro allI impI)
    fix i assume i: "i < length os"
    then have "Suc i < length (obj # os)" by simp
    from Cons.prems(3)[rule_format, OF this] nt[of i] nt[of "Suc i"] i
    show "ManageObject api (tl pols ! i) user (os ! i) = None
                          \<and> AddObject api (tl pols ! i) (os ! i) = Inr (tl pols ! (i + 1))"
      by simp
  qed
  from Cons.IH[OF l z c] m a nt[of "length os"] show ?case by simp
qed

lemma update_objects_Inl:
  assumes "i < length os" "length pols = i + 1" "pols ! 0 = pol"
    and "\<forall>j < i. ManageObject api (pols ! j) user (os ! j) = None
                  \<and> AddObject api (pols ! j) (os ! j) = Inr (pols ! (j + 1))"
    and "ManageObject api (pols ! i) user (os ! i) = Some err"
  shows "update_objects api user pol os
           = Inl (Panic (''error while adding updated object to policy: '' @ err))"
  using assms
proof (induction os arbitrary: pol pols i)
  case Nil
  then show ?case by simp
next
  case (Cons obj os)
  show ?case
  proof (cases i)
    case 0
    with Cons.prems(3,5) show ?thesis by simp
  next
    case (Suc k)
    from Cons.prems(4)[rule_format, of 0] Cons.prems(3) Suc
    have m: "ManageObject api pol user obj = None" and a: "AddObject api pol obj = Inr (pols ! 1)"
      by simp_all
    have k: "k < length os" using Cons.prems(1) Suc by simp
    have l: "length (tl pols) = k + 1" using Cons.prems(2) Suc by simp
    have nt: "tl pols ! n = pols ! Suc n" if "n \<le> k" for n
      using that l by (simp add: nth_tl)
    have z: "tl pols ! 0 = pols ! 1" using nt[of 0] by simp
    have c: "\<forall>j < k. ManageObject api (tl pols ! j) user (os ! j) = None
                  \<and> AddObject api (tl pols ! j) (os ! j) = Inr (tl pols ! (j + 1))"
    proof (intro allI impI)
      fix j assume j: "j < k"
      then have "Suc j < i" using Suc by simp
      from Cons.prems(4)[rule_format, OF this] nt[of j] nt[of "Suc j"] j
      show "ManageObject api (tl pols ! j) user (os ! j) = None
                  \<and> AddObject api (tl pols ! j) (os ! j) = Inr (tl pols ! (j + 1))"
        by simp
    qed
    have h: "ManageObject api (tl pols ! k) user (os ! k) = Some err"
      using Cons.prems(5) Suc nt[of k] by simp
    from Cons.IH[OF k l z c h] m a show ?thesis by simp
  qed
qed



section \<open>The codec\<close>

lemma set_insert_key: "set (insert_key kv kvs) = insert kv (set kvs)"
  by (induction kvs) auto

lemma set_sort_keys: "set (sort_keys kvs) = set kvs"
  unfolding sort_keys_def by (induction kvs) (simp_all add: set_insert_key)

lemma distinct_insert_key:
  "distinct (map fst (insert_key kv kvs)) \<longleftrightarrow> fst kv \<notin> fst ` set kvs \<and> distinct (map fst kvs)"
  by (induction kvs) (auto simp: set_insert_key)

lemma distinct_sort_keys: "distinct (map fst kvs) \<Longrightarrow> distinct (map fst (sort_keys kvs))"
  unfolding sort_keys_def
proof (induction kvs)
  case Nil
  show ?case by simp
next
  case (Cons kv kvs)
  have "set (foldr insert_key kvs []) = set kvs"
    using set_sort_keys[of kvs] by (simp add: sort_keys_def)
  with Cons show ?case by (simp add: distinct_insert_key)
qed

lemma map_of_sort_keys: "distinct (map fst kvs) \<Longrightarrow> map_of (sort_keys kvs) = map_of kvs"
  using map_of_inject_set[of "sort_keys kvs" kvs] by (simp add: distinct_sort_keys set_sort_keys)

lemma fields_from_map_of:
  assumes "distinct (map fst kvs)" "\<And>n. n \<in> set (map fst kvs) \<Longrightarrow> m n = map_of kvs n"
  shows "map (\<lambda>name. (name, case m name of Some value \<Rightarrow> value | None \<Rightarrow> d)) (map fst kvs) = kvs"
proof -
  have "\<And>kv. kv \<in> set kvs \<Longrightarrow>
      (fst kv, case m (fst kv) of Some value \<Rightarrow> value | None \<Rightarrow> d) = kv"
  proof -
    fix kv assume kv: "kv \<in> set kvs"
    then have "map_of kvs (fst kv) = Some (snd kv)" using assms(1) by simp
    moreover have "m (fst kv) = map_of kvs (fst kv)" using kv assms(2) by simp
    ultimately show "(fst kv, case m (fst kv) of Some value \<Rightarrow> value | None \<Rightarrow> d) = kv"
      by simp
  qed
  then show ?thesis by (simp add: map_idI comp_def)
qed

lemma Unmarshal_Marshal:
  assumes "of_catalog catalog obj"
  shows "Unmarshal catalog (Marshal obj) = Inr obj"
proof -
  let ?kvs = "(''kind'', Scalar (Base_Kind obj)) # sort_keys (Base_fields obj)"
  from assms have c: "catalog (Base_Kind obj) = Some (map fst (Base_fields obj))"
    and d: "distinct (map fst (Base_fields obj))"
    and k: "''kind'' \<notin> set (map fst (Base_fields obj))"
    by (simp_all add: of_catalog_def)
  have m: "\<And>n. n \<in> set (map fst (Base_fields obj)) \<Longrightarrow> map_of ?kvs n = map_of (Base_fields obj) n"
  proof -
    fix n assume "n \<in> set (map fst (Base_fields obj))"
    with k have "n \<noteq> ''kind''" by metis
    then show "map_of ?kvs n = map_of (Base_fields obj) n"
      by (simp add: map_of_sort_keys[OF d])
  qed
  have "map (\<lambda>name. (name, case map_of ?kvs name of Some value \<Rightarrow> value | None \<Rightarrow> Scalar []))
          (map fst (Base_fields obj)) = Base_fields obj"
    by (rule fields_from_map_of[OF d m])
  then show ?thesis
    using c by (simp add: Unmarshal_def Marshal_def)
qed

lemma Unmarshal_all_Marshal:
  "\<forall>obj \<in> set objects. of_catalog catalog obj \<Longrightarrow>
   Unmarshal_all catalog (map Marshal objects) = Inr objects"
  by (induction objects) (simp_all add: Unmarshal_Marshal)

lemma UnmarshalOneOrMany_MarshalMany:
  "\<forall>obj \<in> set objects. of_catalog catalog obj \<Longrightarrow>
   \<exists>data. MarshalMany objects = Inr data \<and> UnmarshalOneOrMany catalog data = Inr objects"
  by (simp add: MarshalMany_def UnmarshalOneOrMany_def Unmarshal_all_Marshal)

lemma Unmarshal_of_catalog:
  assumes "Unmarshal catalog data = Inr obj" "catalog_wf catalog"
  shows "of_catalog catalog obj"
proof -
  from assms(1) obtain kvs kind names where
    "data = Mapping kvs" "map_of kvs ''kind'' = Some (Scalar kind)" "catalog kind = Some names"
    and o: "obj = \<lparr>Base_Kind = kind,
                   Base_fields = map (\<lambda>name. (name, case map_of kvs name of
                                                 Some value \<Rightarrow> value
                                               | None \<Rightarrow> Scalar [])) names\<rparr>"
    by (auto simp: Unmarshal_def split: node.splits option.splits)
  with assms(2) have "distinct names" "''kind'' \<notin> set names" by (auto simp: catalog_wf_def)
  with \<open>catalog kind = Some names\<close> show ?thesis
    by (simp add: of_catalog_def o comp_def)
qed

lemma Unmarshal_all_of_catalog:
  "Unmarshal_all catalog items = Inr objects \<Longrightarrow> catalog_wf catalog \<Longrightarrow>
   \<forall>obj \<in> set objects. of_catalog catalog obj"
proof (induction items arbitrary: objects)
  case Nil
  then show ?case by simp
next
  case (Cons data items)
  from Cons.prems(1) obtain obj rest where
    u: "Unmarshal catalog data = Inr obj" "Unmarshal_all catalog items = Inr rest"
    and os: "objects = obj # rest"
    by (auto split: sum.splits)
  from Unmarshal_of_catalog[OF u(1) Cons.prems(2)] Cons.IH[OF u(2) Cons.prems(2)] os
  show ?case by simp
qed

lemma UnmarshalOneOrMany_of_catalog:
  assumes "UnmarshalOneOrMany catalog data = Inr objects" "catalog_wf catalog"
  shows "\<forall>obj \<in> set objects. of_catalog catalog obj"
proof (cases data)
  case (Scalar s)
  with assms(1) show ?thesis by (simp add: UnmarshalOneOrMany_def)
next
  case (Mapping kvs)
  with assms(1) obtain obj where "Unmarshal catalog data = Inr obj" "objects = [obj]"
    by (auto simp: UnmarshalOneOrMany_def split: sum.splits)
  with Unmarshal_of_catalog[OF _ assms(2)] show ?thesis by simp
next
  case (Sequence items)
  with assms(1) have "Unmarshal_all catalog items = Inr objects"
    by (simp add: UnmarshalOneOrMany_def)
  from Unmarshal_all_of_catalog[OF this assms(2)] show ?thesis .
qed

lemma load_files_of_catalog:
  "load_files catalog fs result = Inr objects \<Longrightarrow> catalog_wf catalog \<Longrightarrow>
   \<forall>obj \<in> set result. of_catalog catalog obj \<Longrightarrow>
   \<forall>obj \<in> set objects. of_catalog catalog obj"
proof (induction fs arbitrary: result)
  case Nil
  then show ?case by simp
next
  case (Cons f fs)
  show ?case
  proof (cases "strings_Contains (fst f) ''external''")
    case True
    with Cons.prems(1) have "load_files catalog fs result = Inr objects" by simp
    from Cons.IH[OF this Cons.prems(2,3)] show ?thesis .
  next
    case False
    with Cons.prems(1) obtain loaded where
      l: "loadObjectsFromFile catalog f = Inr loaded"
      and r: "load_files catalog fs (result @ loaded) = Inr objects"
      by (auto split: sum.splits)
    from l obtain data where "UnmarshalOneOrMany catalog data = Inr loaded"
      by (auto simp: loadObjectsFromFile_def split: sum.splits)
    from UnmarshalOneOrMany_of_catalog[OF this Cons.prems(2)] Cons.prems(3)
    have "\<forall>obj \<in> set (result @ loaded). of_catalog catalog obj" by auto
    from Cons.IH[OF r Cons.prems(2) this] show ?thesis .
  qed
qed
section \<open>The concrete store, evaluated\<close>

lemma Generation_String_1: "Generation_String (Suc 0) = ''1''"
  by (simp add: Generation_String.simps digit_char_def)

lemma Generation_String_is_1: "Generation_String g = ''1'' \<Longrightarrow> g = Suc 0"
  using Generation_String_inject[of g "Suc 0"] by (simp add: Generation_String_1)

lemmas eval_defs = ServiceInfo_def kafka_def empty_store_def kafka_store_def
  IndexesFor_def IndexesFor_build_def Interface_def Save_apply_def Save_write_def Save_index_def LastGenIndex_def
  Indexes_NameForStorable_def Index_NameForStorable_def Index_NameForValue_def
  IndexType_String_def KeyForStorable_def IsReplaceOrForceGen_def SetGeneration_def
  FirstGen_def Next_def marshalGen_def unmarshalGen_def unmarshal_storable_def
  unmarshal_IndexValueList_def noopValueTransform_def digit_char_def Add_def
  sort_Search_def LastOrEmptyGen_def Let_def Generation_String.simps
  sort_Search_loop.simps

lemma kafka_store_client:
  "client kafka_store =
     (\<lambda>key. Raw [])
       (''/object/p/service/kafka@1'' := ObjectData (kafka ''1'' 1),
        ''/index/lastgen/p/service/kafka'' := Raw ''1'',
        ''/index/listgen/p/service/kafka/Replicas=1'' := ListData [''1''])"
  by (simp add: eval_defs)

lemma kafka_store_types: "types kafka_store = [''service'' \<mapsto> ServiceInfo]"
  by (simp add: eval_defs)

lemma kafka_store_sorted: "lists_sorted (client kafka_store)"
  by (simp add: lists_sorted_def kafka_store_client sorted_bytes_def)

lemma kafka_store_faithful:
  "generations_faithful (client kafka_store) (''/'' @ KeyForStorable (kafka r g))"
  by (auto simp: generations_faithful_def kafka_store_client kafka_def KeyForStorable_def
      dest: Generation_String_is_1)

lemma ServiceInfo_names: "field_names_nonempty ServiceInfo"
  by (simp add: field_names_nonempty_def ServiceInfo_def)

lemma ServiceInfo_indexes:
  "IndexesFor_build ServiceInfo =
     ([(LastGenIndex, \<lparr>Type = IndexTypeLastGen, Field = [], ValueTransform = None, rFieldID = 0\<rparr>),
       (''Replicas'', \<lparr>Type = IndexTypeListGen, Field = ''Replicas'',
                       ValueTransform = Some noopValueTransform, rFieldID = 1\<rparr>)], None)"
  by (simp add: IndexesFor_build_def ServiceInfo_def LastGenIndex_def)

lemma kafka_store_cache:
  "indexCache kafka_store = [''service'' \<mapsto> fst (IndexesFor_build ServiceInfo)]"
  by (simp add: eval_defs)

lemma kafka_store_cache_made: "cache_made_for (indexCache kafka_store) ServiceInfo"
  by (simp add: cache_made_for_def kafka_store_cache ServiceInfo_def)

lemma empty_store_cache_made: "cache_made_for (indexCache empty_store) info"
  by (simp add: cache_made_for_def empty_store_def)

lemma kafka_fields: "has_fields_of ServiceInfo (kafka r g)"
  by (simp add: has_fields_of_def ServiceInfo_def kafka_def)

lemma kafka_fields_exported: "indexed_fields_exported ServiceInfo (kafka r g)"
  by (simp add: indexed_fields_exported_def ServiceInfo_def kafka_def less_Suc_eq)

text \<open>
  The first save of an object whose kind is not a struct panics in \<^verbatim>\<open>IndexesFor\<close> and
  writes nothing to etcd, but leaves an entry in the cache; the second save finds that
  entry and stores the object under generation \<open>1\<close>.
\<close>

lemma Save_after_IndexesFor_panic:
  "snd (snd (Save other_store (Some (names 0)) []))
     = Some (Panic ''reflect: NumField of non-struct type'')
   \<and> client (fst (Save other_store (Some (names 0)) [])) = client other_store
   \<and> indexCache (fst (Save other_store (Some (names 0)) [])) ''names''
     = Some [(LastGenIndex,
              \<lparr>Type = IndexTypeLastGen, Field = [], ValueTransform = None, rFieldID = 0\<rparr>)]
   \<and> snd (Save (fst (Save other_store (Some (names 0)) [])) (Some (names 0)) [])
     = (Some (names 1), None)
   \<and> client (fst (Save (fst (Save other_store (Some (names 0)) [])) (Some (names 0)) []))
        ''/object/p/names/n@1'' = ObjectData (names 1)"
  by (simp add: other_store_def NamesInfo_def names_def IndexesFor_def IndexesFor_build_def
      Save_apply_def Save_write_def Save_index_def LastGenIndex_def Indexes_NameForStorable_def
      Index_NameForStorable_def Index_NameForValue_def IndexType_String_def KeyForStorable_def
      IsReplaceOrForceGen_def SetGeneration_def FirstGen_def marshalGen_def
      Generation_String.simps digit_char_def Let_def)

text \<open>
  The save of an object with an indexed field that is not exported panics in
  \<^verbatim>\<open>f.Interface()\<close>, inside the transaction, and writes nothing to etcd.
\<close>

lemma Save_unexported_indexed_field:
  "snd (Save other_store (Some (hidden 0)) [])
     = (Some (hidden 1),
        Some (Panic ''reflect.Value.Interface: cannot return value obtained from unexported field or method''))
   \<and> client (fst (Save other_store (Some (hidden 0)) [])) = client other_store"
  by (simp add: other_store_def HiddenInfo_def hidden_def IndexesFor_def IndexesFor_build_def
      Save_apply_def Save_write_def Save_index_def LastGenIndex_def Indexes_NameForStorable_def
      Index_NameForStorable_def Index_NameForValue_def IndexType_String_def KeyForStorable_def
      IsReplaceOrForceGen_def SetGeneration_def FirstGen_def marshalGen_def Interface_def
      Generation_String.simps digit_char_def Let_def)

lemma marshalGen_2: "marshalGen 2 = ''2''"
  by (simp add: marshalGen_def Generation_String.simps digit_char_def)


lemma example_sort_up:
  "sort_Sort example_api Less [kafka ''1'' 0, example_rule] = [example_rule, kafka ''1'' 0]"
  by (simp add: example_api_def insertion_sort_def Less_def Weight_def kafka_def example_rule_def
      TypeACLRule_Kind_def)

lemma example_sort_down:
  "sort_Sort example_api (sort_Reverse Less) [example_rule, kafka ''1'' 0]
     = [kafka ''1'' 0, example_rule]"
  by (simp add: example_api_def insertion_sort_def Less_def Weight_def kafka_def example_rule_def
      TypeACLRule_Kind_def sort_Reverse_def)

lemma example_sort_down':
  "sort_Sort example_api (sort_Reverse Less) [kafka ''1'' 0, example_rule]
     = [kafka ''1'' 0, example_rule]"
  by (simp add: example_api_def insertion_sort_def Less_def Weight_def kafka_def example_rule_def
      TypeACLRule_Kind_def sort_Reverse_def)

lemma example_sort_up':
  "sort_Sort example_api Less [example_rule, kafka ''1'' 0] = [example_rule, kafka ''1'' 0]"
  by (simp add: example_api_def insertion_sort_def Less_def Weight_def kafka_def example_rule_def
      TypeACLRule_Kind_def)



section \<open>The concrete files, loaded\<close>

lemma example_catalog_wf: "catalog_wf example_catalog"
  by (auto simp: catalog_wf_def example_catalog_def split: if_splits)

lemma example_objects_of_catalog: "\<forall>obj \<in> set example_objects. of_catalog example_catalog obj"
  by (simp add: example_objects_def of_catalog_def example_catalog_def)

lemma example_load_files:
  "load_files example_catalog (sort_Strings example_files) [] = Inr (rev example_objects)"
  by code_simp
section \<open>Claim C1: saving equal content under another generation\<close>

text \<open>
  Claim C1. In default mode, when a last generation exists, \<^verbatim>\<open>Save\<close> should compare the
  stored object with the new one ignoring the new object's generation, and write nothing
  when they are equal. The source compares with \<^verbatim>\<open>reflect.DeepEqual(prevObj, newObj)\<close>,
  generation included. The store holds \<^verbatim>\<open>p/service/kafka\<close> with \<^verbatim>\<open>Replicas\<close> \<open>1\<close> at
  generation \<open>1\<close>; saving an object with the same content whose generation field is
  \<open>0\<close> (a fresh object) gives it generation \<open>2\<close>, writes \<^verbatim>\<open>/object/p/service/kafka@2\<close>
  and moves the last-generation index to \<open>2\<close>.
\<close>

theorem Save_equal_content_writes_new_generation:
  "client kafka_store ''/index/lastgen/p/service/kafka'' = Raw ''1''
   \<and> client kafka_store ''/object/p/service/kafka@1'' = ObjectData (kafka ''1'' 1)
   \<and> fst (snd (Save kafka_store (Some (kafka ''1'' 0)) [])) = Some (kafka ''1'' 2)
   \<and> snd (snd (Save kafka_store (Some (kafka ''1'' 0)) [])) = None
   \<and> client (fst (Save kafka_store (Some (kafka ''1'' 0)) [])) ''/object/p/service/kafka@2''
       = ObjectData (kafka ''1'' 2)
   \<and> client (fst (Save kafka_store (Some (kafka ''1'' 0)) [])) ''/index/lastgen/p/service/kafka''
       = Raw ''2''"
  by code_simp

section \<open>Claim C2: saving the same object twice\<close>

text \<open>
  Claim C2. Calling \<^verbatim>\<open>Save(s)\<close> and then \<^verbatim>\<open>Save(s)\<close> again on the same object creates at
  most one new generation, and the second call returns with the object carrying the
  same generation and leaves the store unchanged. Here: whatever the options and the
  outcome of the first call, the second call on the object as the first call left it
  returns the same state (the contents of etcd and the cache of indexes), the same
  object and the same outcome; and the two calls together change at most one entry
  under \<^verbatim>\<open>/object\<close>. The store the first call starts from holds sorted lists and objects
  that carry the generation they are stored under, as every store written by \<^verbatim>\<open>Save\<close>
  does; the cache entry of the kind, if there is one, was made for the type the kind is
  registered with; and \<^verbatim>\<open>IndexesFor\<close> returns in the first call. (It panics for a kind
  whose type is not a struct and leaves an entry in the cache that a later call takes
  for the indexes of the kind.)
\<close>

theorem Save_twice:
  assumes srt: "lists_sorted (client s)"
    and fth: "generations_faithful (client s) (''/'' @ KeyForStorable obj)"
    and wf: "\<forall>info. types s (GetKind obj) = Some info \<longrightarrow>
               field_names_nonempty info \<and> cache_made_for (indexCache s) info
               \<and> (\<exists>cache indexes. IndexesFor (indexCache s) info = (cache, Inr indexes))"
    and first: "Save s (Some obj) opts = (s1, obj1, r1)"
  shows "Save s1 obj1 opts = (s1, obj1, r1)
     \<and> (\<exists>K. \<forall>K' x. K' \<noteq> K \<longrightarrow> K' = ''/object'' @ x \<longrightarrow> client s1 K' = client s K')"
proof (cases "types s (GetKind obj)")
  case None
  with first show ?thesis by auto
next
  case (Some info)
  with wf obtain cache indexes where wf': "field_names_nonempty info"
    and cm: "cache_made_for (indexCache s) info"
    and ixf: "IndexesFor (indexCache s) info = (cache, Inr indexes)"
    by blast
  note again = IndexesFor_again[OF ixf]
  let ?key = "''/'' @ KeyForStorable obj"
  show ?thesis
  proof (cases "Versioned info")
    case False
    let ?K = "''/object'' @ ?key @ ''@'' @ Generation_String LastOrEmptyGen"
    from first Some ixf False
    have s1: "s1 = s\<lparr>client := (client s)(?K := ObjectData obj), indexCache := cache\<rparr>"
      and o: "obj1 = Some obj" "r1 = None"
      by (auto simp: Let_def)
    have "Save s1 obj1 opts = (s1, obj1, r1)"
      using Some again False by (simp add: s1 o Let_def del: append.simps)
    moreover have "\<forall>K' x. K' \<noteq> ?K \<longrightarrow> K' = ''/object'' @ x \<longrightarrow> client s1 K' = client s K'"
      by (simp add: s1)
    ultimately show ?thesis by blast
  next
    case True
    from IndexesFor_LastGen[OF ixf cm True wf'] obtain ix
      where ix: "map_of indexes LastGenIndex = Some ix" "Type ix = IndexTypeLastGen" by blast
    obtain res obj' where ap: "Save_apply indexes ?key (IsReplaceOrForceGen opts) (client s) obj = (res, obj')"
      by (cases "Save_apply indexes ?key (IsReplaceOrForceGen opts) (client s) obj")
    have kind: "GetKind obj' = GetKind obj" and key: "KeyForStorable obj' = KeyForStorable obj"
      using ap by (auto simp: Save_apply_def Let_def SetGeneration_def KeyForStorable_def
          split: if_splits sum.splits)
    note tw = Save_apply_twice[OF ap srt fth ix]
    show ?thesis
    proof (cases res)
      case (Inl e)
      with first Some ixf True ap
      have r: "s1 = s\<lparr>indexCache := cache\<rparr>" "obj1 = Some obj'" "r1 = Some e"
        by (auto simp: Let_def)
      have "Save s1 obj1 opts = (s1, obj1, r1)"
        using Some again True tw Inl by (simp add: r kind key Let_def del: append.simps)
      then show ?thesis using r by auto
    next
      case (Inr t)
      with first Some ixf True ap
      have r: "s1 = s\<lparr>client := t, indexCache := cache\<rparr>" "obj1 = Some obj'" "r1 = None"
        by (auto simp: Let_def)
      have "Save s1 obj1 opts = (s1, obj1, r1)"
        using Some again True tw Inr
        by (simp add: r kind key Let_def del: append.simps)
      moreover
      let ?K = "''/object'' @ ?key @ ''@'' @ Generation_String (GetGeneration obj')"
      have "\<forall>K' x. K' \<noteq> ?K \<longrightarrow> K' = ''/object'' @ x \<longrightarrow> client s1 K' = client s K'"
      proof (intro allI impI)
        fix K' x assume a: "K' \<noteq> ?K" "K' = ''/object'' @ x"
        have "t K' = client s K'"
          using ap[unfolded Inr] a(1)
        proof (rule Save_apply_object_frame)
          fix n show "K' \<noteq> ''/index/'' @ n" using a(2) by simp
        qed
        then show "client s1 K' = client s K'" by (simp add: r)
      qed
      ultimately show ?thesis by blast
    qed
  qed
qed

text \<open>
  The theorem at the store holding \<^verbatim>\<open>p/service/kafka\<close> at generation \<open>1\<close>: the object is
  saved with \<^verbatim>\<open>Replicas\<close> \<open>3\<close>, gets generation \<open>2\<close>, and is saved again.
\<close>

theorem Save_twice_witness:
  "Save (fst (Save kafka_store (Some (kafka ''3'' 0)) []))
        (fst (snd (Save kafka_store (Some (kafka ''3'' 0)) []))) []
     = Save kafka_store (Some (kafka ''3'' 0)) []
   \<and> fst (snd (Save kafka_store (Some (kafka ''3'' 0)) [])) = Some (kafka ''3'' 2)"
proof -
  have wf: "\<forall>info. types kafka_store (GetKind (kafka ''3'' 0)) = Some info \<longrightarrow>
               field_names_nonempty info \<and> cache_made_for (indexCache kafka_store) info
               \<and> (\<exists>cache indexes. IndexesFor (indexCache kafka_store) info = (cache, Inr indexes))"
    using kafka_store_cache_made
    by (simp add: kafka_store_types kafka_def ServiceInfo_names)
       (simp add: IndexesFor_def kafka_store_cache ServiceInfo_def)
  have first: "Save kafka_store (Some (kafka ''3'' 0)) [] =
      (fst (Save kafka_store (Some (kafka ''3'' 0)) []),
       fst (snd (Save kafka_store (Some (kafka ''3'' 0)) [])),
       snd (snd (Save kafka_store (Some (kafka ''3'' 0)) [])))"
    by simp
  have g: "fst (snd (Save kafka_store (Some (kafka ''3'' 0)) [])) = Some (kafka ''3'' 2)"
    by code_simp
  from Save_twice[OF kafka_store_sorted kafka_store_faithful wf first] g
  show ?thesis by simp
qed

section \<open>Claim C3: the indexes after a save that assigns a new generation\<close>

text \<open>
  Claim C3, as stated, has the previous generation removed from the list entry under the
  old value when an indexed field changes. The source does not remove it: the loop only
  adds (its branch for the previous object is a comment). The store holds
  \<^verbatim>\<open>p/service/kafka\<close> with \<^verbatim>\<open>Replicas\<close> \<open>1\<close> at generation \<open>1\<close>; after saving it with
  \<^verbatim>\<open>Replicas\<close> \<open>3\<close>, which assigns generation \<open>2\<close>, the entry \<^verbatim>\<open>Replicas=1\<close> still lists
  generation \<open>1\<close>.

  Nor does every list equal the generations whose stored object has the value when the
  generation assigned is in use already: \<^verbatim>\<open>Save\<close> takes the generation after the one in
  the last-generation index and does not look whether an object is stored under it. In
  the store where that index was set back to \<open>1\<close> while generation \<open>2\<close> holds the object
  with \<^verbatim>\<open>Replicas\<close> \<open>3\<close>, saving the object with \<^verbatim>\<open>Replicas\<close> \<open>5\<close> assigns generation \<open>2\<close>
  again, replaces the object stored there, and the entry \<^verbatim>\<open>Replicas=3\<close> still lists
  generation \<open>2\<close>.
\<close>

theorem Save_index_counterexample:
  "client kafka_store ''/index/listgen/p/service/kafka/Replicas=1'' = ListData [''1'']
   \<and> fst (snd (Save kafka_store (Some (kafka ''3'' 0)) [])) = Some (kafka ''3'' 2)
   \<and> snd (snd (Save kafka_store (Some (kafka ''3'' 0)) [])) = None
   \<and> client (fst (Save kafka_store (Some (kafka ''3'' 0)) []))
        ''/index/listgen/p/service/kafka/Replicas=3'' = ListData [''2'']
   \<and> client (fst (Save kafka_store (Some (kafka ''3'' 0)) []))
        ''/index/listgen/p/service/kafka/Replicas=1'' = ListData [''1'']
   \<and> client moved_back_store ''/index/lastgen/p/service/kafka'' = Raw ''1''
   \<and> client moved_back_store ''/object/p/service/kafka@2'' = ObjectData (kafka ''3'' 2)
   \<and> client moved_back_store ''/index/listgen/p/service/kafka/Replicas=3'' = ListData [''2'']
   \<and> fst (snd (Save moved_back_store (Some (kafka ''5'' 0)) [])) = Some (kafka ''5'' 2)
   \<and> snd (snd (Save moved_back_store (Some (kafka ''5'' 0)) [])) = None
   \<and> client (fst (Save moved_back_store (Some (kafka ''5'' 0)) []))
        ''/object/p/service/kafka@2'' = ObjectData (kafka ''5'' 2)
   \<and> client (fst (Save moved_back_store (Some (kafka ''5'' 0)) []))
        ''/index/listgen/p/service/kafka/Replicas=3'' = ListData [''2'']"
  by code_simp

text \<open>
  Claim C3, amended. After a default-mode \<^verbatim>\<open>Save\<close> of a versioned object that assigns a
  new generation (the object leaves with a generation that is not the one the
  last-generation index held before), in the same transaction: the object is stored
  under the new generation; the last-generation index holds the new generation; every
  list index has an entry for the object's current field value, and the new generation
  is added to the list of each such entry; every other entry of the store is unchanged,
  so the previous generation stays listed under the old value. Consequently, when
  nothing was stored under the new generation before, every entry whose list was exactly
  the generations whose stored object has that transformed field value before the save
  is so after it. The cache entry of the kind, if there is one, was made for the type
  the kind is registered with; \<open>indexes\<close> is what \<^verbatim>\<open>IndexesFor\<close> returns.
\<close>

theorem Save_default_new_generation_indexes:
  assumes kind: "types s (GetKind obj) = Some info" "Versioned info"
      "field_names_nonempty info" "cache_made_for (indexCache s) info"
      "IndexesFor (indexCache s) info = (cache, Inr indexes)"
    and mode: "\<not> IsReplaceOrForceGen opts"
    and save: "Save s (Some obj) opts = (s', Some obj', None)"
    and assigned: "unmarshalGen (client s (''/index/lastgen/'' @ KeyForStorable obj))
                     \<noteq> Inr (GetGeneration obj')"
  shows "client s' (''/object/'' @ KeyForStorable obj @ ''@'' @ Generation_String (GetGeneration obj'))
           = ObjectData obj'
       \<and> client s' (''/index/lastgen/'' @ KeyForStorable obj) = Raw (marshalGen (GetGeneration obj'))
       \<and> (\<forall>ix \<in> set (map snd indexes). Type ix = IndexTypeListGen \<longrightarrow>
             (\<exists>n. Index_NameForStorable ix obj' = Inr n))
       \<and> (\<forall>K \<in> listgen_keys (map snd indexes) obj'.
             listed (client s') K = insert (marshalGen (GetGeneration obj')) (listed (client s) K))
       \<and> (\<forall>K. K \<notin> listgen_keys (map snd indexes) obj'
             \<longrightarrow> K \<noteq> ''/index/lastgen/'' @ KeyForStorable obj
             \<longrightarrow> K \<noteq> ''/object/'' @ KeyForStorable obj @ ''@'' @ Generation_String (GetGeneration obj')
             \<longrightarrow> client s' K = client s K)
       \<and> (client s (''/object/'' @ KeyForStorable obj @ ''@''
                       @ Generation_String (GetGeneration obj')) = Raw [] \<longrightarrow>
            (\<forall>K. listed (client s) K
                 = stored_generations (client s) (map snd indexes) (''/'' @ KeyForStorable obj) K
             \<longrightarrow> listed (client s') K
                 = stored_generations (client s') (map snd indexes) (''/'' @ KeyForStorable obj) K))"
proof -
  let ?key = "''/'' @ KeyForStorable obj"
  let ?ixs = "map snd indexes"
  let ?g = "GetGeneration obj'"
  let ?O = "''/object'' @ ?key @ ''@'' @ Generation_String ?g"
  let ?L = "''/index/lastgen/'' @ KeyForStorable obj"
  let ?s = "client s" and ?t = "client s'"
  from save kind(1,2,5) mode
  have ap: "Save_apply indexes ?key False ?s obj = (Inr ?t, obj')"
    by (auto simp: Let_def split: sum.splits prod.splits)
  from IndexesFor_LastGen[OF kind(5,4,2,3)] obtain ix
    where ix: "map_of indexes LastGenIndex = Some ix" "Type ix = IndexTypeLastGen" by blast
  from assigned have assigned': "unmarshalGen (?s (''/index/'' @ ''lastgen/'' @ KeyForStorable obj))
      \<noteq> Inr (GetGeneration obj')" by simp
  from Save_apply_default_assigned[OF ap ix assigned'] obtain p g
    where o: "obj' = SetGeneration obj g" and w: "Save_write indexes ?key p ?s obj' = Inr ?t"
    by blast
  have keyo: "KeyForStorable obj' = KeyForStorable obj"
    by (simp add: o KeyForStorable_SetGeneration)
  from w have run: "Save_indexes ?ixs p obj' ?g (?s(?O := ObjectData obj')) = Inr ?t"
    by (simp add: Save_write_def Let_def)
  note eff = Save_indexes_effect[OF run, unfolded keyo]
  from ix have mem: "\<exists>ix \<in> set ?ixs. Type ix = IndexTypeLastGen"
    by (metis map_of_SomeD image_eqI set_map snd_conv)
  have c1: "?t ?O = ObjectData obj'" using Save_write_object[OF w] .
  have c2: "?t ?L = Raw (marshalGen ?g)"
    using eff[THEN conjunct2, THEN conjunct2, THEN conjunct1] mem by blast
  have c3: "\<forall>ix \<in> set ?ixs. Type ix = IndexTypeListGen \<longrightarrow> (\<exists>n. Index_NameForStorable ix obj' = Inr n)"
    using eff[THEN conjunct2, THEN conjunct2, THEN conjunct2] .
  have Onot: "?O \<notin> listgen_keys ?ixs obj'" by (rule object_key_not_listgen)
  have lO: "listed (?s(?O := ObjectData obj')) K = listed ?s K" if "K \<in> listgen_keys ?ixs obj'" for K
    using that Onot by (auto simp: listed_def)
  have c4: "\<forall>K \<in> listgen_keys ?ixs obj'. listed ?t K = insert (marshalGen ?g) (listed ?s K)"
  proof
    fix K assume "K \<in> listgen_keys ?ixs obj'"
    from eff[THEN conjunct1, rule_format, OF this] lO[OF this]
    show "listed ?t K = insert (marshalGen ?g) (listed ?s K)" by simp
  qed
  have c5: "?t K = ?s K" if "K \<notin> listgen_keys ?ixs obj'" "K \<noteq> ?L" "K \<noteq> ?O" for K
  proof -
    have "?t K = (?s(?O := ObjectData obj')) K"
      using eff[THEN conjunct2, THEN conjunct1, rule_format, of K] that(1,2) by simp
    with that(3) show ?thesis by simp
  qed
  have stored: "stored_generations ?t ?ixs ?key K
      = stored_generations ?s ?ixs ?key K
          \<union> (if K \<in> listgen_keys ?ixs obj' then {marshalGen ?g} else {})"
    if new': "?s ?O = Raw []" for K
  proof -
    have other: "?t (''/object'' @ ?key @ ''@'' @ Generation_String g') = ?s (''/object'' @ ?key @ ''@'' @ Generation_String g')"
      if "g' \<noteq> ?g" for g'
    proof (rule c5)
      show "''/object'' @ ?key @ ''@'' @ Generation_String g' \<notin> listgen_keys ?ixs obj'"
        by (rule object_key_not_listgen)
      show "''/object'' @ ?key @ ''@'' @ Generation_String g' \<noteq> ?L" by simp
      show "''/object'' @ ?key @ ''@'' @ Generation_String g' \<noteq> ?O"
        using that by (simp only: object_key_inject) simp
    qed
    show ?thesis
    proof (intro set_eqI iffI)
      fix v assume "v \<in> stored_generations ?t ?ixs ?key K"
      then obtain g' ob where v: "v = marshalGen g'"
          "?t (''/object'' @ ?key @ ''@'' @ Generation_String g') = ObjectData ob"
          "K \<in> listgen_keys ?ixs ob"
        by (auto simp: stored_generations_def)
      show "v \<in> stored_generations ?s ?ixs ?key K
          \<union> (if K \<in> listgen_keys ?ixs obj' then {marshalGen ?g} else {})"
      proof (cases "g' = ?g")
        case True
        with v(2) c1 have "ob = obj'" by simp
        with v True show ?thesis by simp
      next
        case False
        from other[OF False] v have "v \<in> stored_generations ?s ?ixs ?key K"
          by (auto simp: stored_generations_def)
        then show ?thesis by simp
      qed
    next
      fix v assume a: "v \<in> stored_generations ?s ?ixs ?key K
          \<union> (if K \<in> listgen_keys ?ixs obj' then {marshalGen ?g} else {})"
      show "v \<in> stored_generations ?t ?ixs ?key K"
      proof (cases "v \<in> stored_generations ?s ?ixs ?key K")
        case True
        then obtain g' ob where v: "v = marshalGen g'"
            "?s (''/object'' @ ?key @ ''@'' @ Generation_String g') = ObjectData ob"
            "K \<in> listgen_keys ?ixs ob"
          by (auto simp: stored_generations_def)
        from v(2) new' have "g' \<noteq> ?g" by auto
        from other[OF this] v show ?thesis by (auto simp: stored_generations_def)
      next
        case False
        with a have "K \<in> listgen_keys ?ixs obj'" "v = marshalGen ?g"
          by (auto split: if_splits)
        with c1 show ?thesis by (auto simp: stored_generations_def)
      qed
    qed
  qed
  have c6: "listed ?t K = stored_generations ?t ?ixs ?key K"
    if new': "?s ?O = Raw []"
      and h: "listed ?s K = stored_generations ?s ?ixs ?key K" for K
  proof (cases "K \<in> listgen_keys ?ixs obj'")
    case True
    with c4 have "listed ?t K = insert (marshalGen ?g) (listed ?s K)" by blast
    with h stored[OF new', of K] True show ?thesis by simp
  next
    case False
    have none: "stored_generations stm ?ixs ?key K' = {}" if "\<And>n. K' \<noteq> ''/index/'' @ n" "K' \<noteq> ''/index/''" for stm K'
      using that by (auto simp: stored_generations_def listgen_keys_def)
    show ?thesis
    proof (cases "K = ?L \<or> K = ?O")
      case True
      then have "listed ?t K = {}" using c1 c2 by (auto simp: listed_def)
      moreover have "stored_generations ?t ?ixs ?key K = {}"
        using True lastgen_key_not_listgen object_key_not_listgen
        by (auto simp: stored_generations_def)
      ultimately show ?thesis by simp
    next
      case F2: False
      with c5[OF False] have "?t K = ?s K" by simp
      then have "listed ?t K = listed ?s K" by (simp add: listed_def)
      with h stored[OF new', of K] False show ?thesis by simp
    qed
  qed
  have c1': "?t (''/object/'' @ KeyForStorable obj @ ''@'' @ Generation_String ?g) = ObjectData obj'"
    using c1 by simp
  have c5': "\<forall>K. K \<notin> listgen_keys ?ixs obj' \<longrightarrow> K \<noteq> ?L
      \<longrightarrow> K \<noteq> ''/object/'' @ KeyForStorable obj @ ''@'' @ Generation_String ?g \<longrightarrow> ?t K = ?s K"
    using c5 by simp
  have c6': "?s (''/object/'' @ KeyForStorable obj @ ''@'' @ Generation_String ?g) = Raw [] \<longrightarrow>
      (\<forall>K. listed ?s K = stored_generations ?s ?ixs ?key K
          \<longrightarrow> listed ?t K = stored_generations ?t ?ixs ?key K)"
    using c6 by simp
  show ?thesis by (intro conjI) (rule c1' c2 c3 c4 c5' c6')+
qed

text \<open>The theorem at the save of \<^verbatim>\<open>p/service/kafka\<close> with \<^verbatim>\<open>Replicas\<close> \<open>3\<close>.\<close>

theorem Save_default_new_generation_indexes_witness:
  "client (fst (Save kafka_store (Some (kafka ''3'' 0)) [])) ''/object/p/service/kafka@2''
      = ObjectData (kafka ''3'' 2)
   \<and> client (fst (Save kafka_store (Some (kafka ''3'' 0)) [])) ''/index/lastgen/p/service/kafka''
      = Raw ''2''
   \<and> listed (client (fst (Save kafka_store (Some (kafka ''3'' 0)) [])))
        ''/index/listgen/p/service/kafka/Replicas=3'' = {''2''}
   \<and> client (fst (Save kafka_store (Some (kafka ''3'' 0)) []))
        ''/index/listgen/p/service/kafka/Replicas=1''
      = client kafka_store ''/index/listgen/p/service/kafka/Replicas=1''"
proof -
  define s' where "s' = fst (Save kafka_store (Some (kafka ''3'' 0)) [])"
  let ?ixs = "[(LastGenIndex, \<lparr>Type = IndexTypeLastGen, Field = [], ValueTransform = None, rFieldID = 0\<rparr>),
          (''Replicas'', \<lparr>Type = IndexTypeListGen, Field = ''Replicas'',
                          ValueTransform = Some noopValueTransform, rFieldID = 1\<rparr>)]"
  have kind: "types kafka_store (GetKind (kafka ''3'' 0)) = Some ServiceInfo"
    by (simp add: kafka_store_types kafka_def)
  have ver: "Versioned ServiceInfo" by (simp add: ServiceInfo_def)
  have mode: "\<not> IsReplaceOrForceGen []" by (simp add: IsReplaceOrForceGen_def)
  have res: "fst (snd (Save kafka_store (Some (kafka ''3'' 0)) [])) = Some (kafka ''3'' 2)"
      "snd (snd (Save kafka_store (Some (kafka ''3'' 0)) [])) = None"
    by code_simp+
  have save: "Save kafka_store (Some (kafka ''3'' 0)) [] = (s', Some (kafka ''3'' 2), None)"
    unfolding s'_def using res by (metis prod.collapse)
  have ixf: "IndexesFor (indexCache kafka_store) ServiceInfo = (indexCache kafka_store, Inr ?ixs)"
    by (simp add: IndexesFor_def kafka_store_cache ServiceInfo_indexes) (simp add: ServiceInfo_def)
  have assigned: "unmarshalGen (client kafka_store (''/index/lastgen/'' @ KeyForStorable (kafka ''3'' 0)))
      \<noteq> Inr (GetGeneration (kafka ''3'' 2))"
    by (simp add: kafka_store_client kafka_def KeyForStorable_def unmarshalGen_def)
  note inst = Save_default_new_generation_indexes[OF kind ver ServiceInfo_names
      kafka_store_cache_made ixf mode save assigned]
  have g: "GetGeneration (kafka ''3'' 2) = 2" by (simp add: kafka_def)
  have k: "KeyForStorable (kafka ''3'' 0) = ''p/service/kafka''"
    by (simp add: kafka_def KeyForStorable_def)
  have gs: "Generation_String 2 = ''2''" by (simp add: Generation_String.simps digit_char_def)
  have old: "listed (client kafka_store) ''/index/listgen/p/service/kafka/Replicas=3'' = {}"
    by (simp add: listed_def kafka_store_client)
  from inst[THEN conjunct1]
  have 1: "client s' ''/object/p/service/kafka@2'' = ObjectData (kafka ''3'' 2)"
    by (simp add: g k gs)
  from inst[THEN conjunct2, THEN conjunct1]
  have 2: "client s' ''/index/lastgen/p/service/kafka'' = Raw ''2''"
    by (simp add: g k marshalGen_2)
  have keys: "listgen_keys (map snd ?ixs) (kafka ''3'' 2)
      = {''/index/listgen/p/service/kafka/Replicas=3''}"
    by (simp add: listgen_keys_Cons listgen_keys_Nil Index_NameForStorable_def
        Index_NameForValue_def IndexType_String_def KeyForStorable_def kafka_def
        noopValueTransform_def Interface_def Let_def)
  have mem: "''/index/listgen/p/service/kafka/Replicas=3'' \<in> listgen_keys (map snd ?ixs) (kafka ''3'' 2)"
    by (simp only: keys) simp
  have nmem: "''/index/listgen/p/service/kafka/Replicas=1'' \<notin> listgen_keys (map snd ?ixs) (kafka ''3'' 2)"
    by (simp only: keys) simp
  from inst[THEN conjunct2, THEN conjunct2, THEN conjunct2, THEN conjunct1, THEN bspec, OF mem]
  have 3: "listed (client s') ''/index/listgen/p/service/kafka/Replicas=3'' = {''2''}"
    by (simp add: g marshalGen_2 old)
  from inst[THEN conjunct2, THEN conjunct2, THEN conjunct2, THEN conjunct2, THEN conjunct1,
      rule_format, OF nmem]
  have 4: "client s' ''/index/listgen/p/service/kafka/Replicas=1''
      = client kafka_store ''/index/listgen/p/service/kafka/Replicas=1''"
    by (simp add: g k gs)
  from 1 2 3 4 show ?thesis unfolding s'_def by blast
qed

section \<open>Claim C4: replacing an object at its generation\<close>

text \<open>
  Claim C4. With \<^verbatim>\<open>ReplaceOrForceGen\<close> the caller's non-zero generation is used unchanged,
  and an object that already exists at that generation should be removed from all
  indexes before the new object is written and indexed. The source reads the old object
  into a variable that shadows \<^verbatim>\<open>prevObj\<close> and never removes anything. The store holds
  \<^verbatim>\<open>p/service/kafka\<close> with \<^verbatim>\<open>Replicas\<close> \<open>1\<close> at generation \<open>1\<close>; replacing it at
  generation \<open>1\<close> by the object with \<^verbatim>\<open>Replicas\<close> \<open>3\<close> stores the new object and lists
  generation \<open>1\<close> under \<^verbatim>\<open>Replicas=3\<close>, and the entry \<^verbatim>\<open>Replicas=1\<close> still lists
  generation \<open>1\<close>, whose object no longer has that value.
\<close>

theorem Save_replace_keeps_stale_entry:
  "client kafka_store ''/object/p/service/kafka@1'' = ObjectData (kafka ''1'' 1)
   \<and> client kafka_store ''/index/listgen/p/service/kafka/Replicas=1'' = ListData [''1'']
   \<and> fst (snd (Save kafka_store (Some (kafka ''3'' 1)) [WithReplaceOrForceGen]))
        = Some (kafka ''3'' 1)
   \<and> snd (snd (Save kafka_store (Some (kafka ''3'' 1)) [WithReplaceOrForceGen])) = None
   \<and> client (fst (Save kafka_store (Some (kafka ''3'' 1)) [WithReplaceOrForceGen]))
        ''/object/p/service/kafka@1'' = ObjectData (kafka ''3'' 1)
   \<and> client (fst (Save kafka_store (Some (kafka ''3'' 1)) [WithReplaceOrForceGen]))
        ''/index/listgen/p/service/kafka/Replicas=3'' = ListData [''1'']
   \<and> client (fst (Save kafka_store (Some (kafka ''3'' 1)) [WithReplaceOrForceGen]))
        ''/index/listgen/p/service/kafka/Replicas=1'' = ListData [''1'']"
  by code_simp

section \<open>Claim C5: the first generation\<close>

text \<open>
  Claim C5. For a versioned object whose last-generation index entry is absent, \<^verbatim>\<open>Save\<close>
  in default mode assigns generation \<open>1\<close> to the object and writes it at
  \<^verbatim>\<open>/object/<key>@1\<close>. The object is a value of its kind's struct type, and the cache
  entry of the kind, if there is one, was made for that type. The generation is assigned
  whatever happens next; the transaction succeeds when the entries of the list indexes
  can be read and the indexed fields of the object are exported (\<^verbatim>\<open>f.Interface()\<close> panics
  on an unexported one), and when it succeeds the object with generation \<open>1\<close> is stored
  under \<^verbatim>\<open>/object/<key>@1\<close>.
\<close>

theorem Save_first_generation:
  assumes kind: "types s (GetKind obj) = Some info" "Versioned info"
      "field_names_nonempty info" "has_fields_of info obj"
      "cache_made_for (indexCache s) info"
    and mode: "\<not> IsReplaceOrForceGen opts"
    and absent: "client s (''/index/lastgen/'' @ KeyForStorable obj) = Raw []"
    and save: "Save s (Some obj) opts = (s', obj', r)"
  shows "FirstGen = 1 \<and> obj' = Some (SetGeneration obj 1)
       \<and> (list_entries_readable (client s) \<and> indexed_fields_exported info obj \<longrightarrow> r = None)
       \<and> (r = None \<longrightarrow>
            client s' (''/object/'' @ KeyForStorable obj @ ''@1'') = ObjectData (SetGeneration obj 1))"
proof -
  define indexes where "indexes = fst (IndexesFor_build info)"
  from has_fields_of_IndexesFor[OF kind(4,5)] obtain cache
    where ixs: "IndexesFor (indexCache s) info = (cache, Inr indexes)"
    unfolding indexes_def by blast
  from IndexesFor_build_LastGen[OF kind(2,3)] obtain ix
    where ix: "map_of indexes LastGenIndex = Some ix" "Type ix = IndexTypeLastGen"
    unfolding indexes_def by blast
  let ?o1 = "SetGeneration obj FirstGen"
  let ?key = "''/'' @ KeyForStorable obj"
  have ap: "Save_apply indexes ?key False (client s) obj = (Save_write indexes ?key None (client s) ?o1, ?o1)"
    using absent by (simp add: Save_apply_def Indexes_NameForStorable_LastGen[OF ix] Let_def)
  have one: "FirstGen = 1" by (simp add: FirstGen_def)
  have gs: "Generation_String (GetGeneration ?o1) = ''1''"
    by (simp add: GetGeneration_SetGeneration FirstGen_def Generation_String_1)
  have o: "obj' = Some ?o1"
    using save kind(1,2) ixs mode ap by (auto simp: Let_def split: sum.splits)
  have succ: "r = None" if "list_entries_readable (client s)" "indexed_fields_exported info obj"
  proof -
    have "\<forall>ix \<in> set (map snd indexes). index_usable ix ?o1"
      using IndexesFor_usable[OF kind(4) that(2)]
      by (simp add: index_usable_SetGeneration indexes_def)
    from Save_write_succeeds[OF this that(1)] obtain t where "Save_write indexes ?key None (client s) ?o1 = Inr t"
      by blast
    with save kind(1,2) ixs mode ap show ?thesis by (auto simp: Let_def)
  qed
  have wr: "client s' (''/object/'' @ KeyForStorable obj @ ''@1'') = ObjectData ?o1" if "r = None"
  proof -
    from save kind(1,2) ixs mode ap that
    obtain t where t: "Save_write indexes ?key None (client s) ?o1 = Inr t" "client s' = t"
      by (auto simp: Let_def split: sum.splits)
    from Save_write_object[OF t(1)] gs t(2) show ?thesis by simp
  qed
  from one o succ wr show ?thesis by simp
qed

text \<open>The theorem at the first save of \<^verbatim>\<open>p/service/kafka\<close> into the empty store.\<close>

theorem Save_first_generation_witness:
  "fst (snd (Save empty_store (Some (kafka ''1'' 0)) [])) = Some (kafka ''1'' 1)
   \<and> snd (snd (Save empty_store (Some (kafka ''1'' 0)) [])) = None
   \<and> client (fst (Save empty_store (Some (kafka ''1'' 0)) [])) ''/object/p/service/kafka@1''
        = ObjectData (kafka ''1'' 1)"
proof -
  define s' where "s' = fst (Save empty_store (Some (kafka ''1'' 0)) [])"
  define obj' where "obj' = fst (snd (Save empty_store (Some (kafka ''1'' 0)) []))"
  define r where "r = snd (snd (Save empty_store (Some (kafka ''1'' 0)) []))"
  have kind: "types empty_store (GetKind (kafka ''1'' 0)) = Some ServiceInfo"
    by (simp add: empty_store_def kafka_def)
  have ver: "Versioned ServiceInfo" by (simp add: ServiceInfo_def)
  have mode: "\<not> IsReplaceOrForceGen []" by (simp add: IsReplaceOrForceGen_def)
  have absent: "client empty_store (''/index/lastgen/'' @ KeyForStorable (kafka ''1'' 0)) = Raw []"
    by (simp add: empty_store_def)
  have save: "Save empty_store (Some (kafka ''1'' 0)) [] = (s', obj', r)"
    unfolding s'_def obj'_def r_def by simp
  have rd: "list_entries_readable (client empty_store)"
    by (simp add: list_entries_readable_def empty_store_def)
  have o: "SetGeneration (kafka ''1'' 0) 1 = kafka ''1'' 1"
    by (simp add: SetGeneration_def kafka_def)
  have k: "KeyForStorable (kafka ''1'' 0) = ''p/service/kafka''"
    by (simp add: kafka_def KeyForStorable_def)
  note inst = Save_first_generation[OF kind ver ServiceInfo_names kafka_fields
      empty_store_cache_made mode absent save]
  from inst[THEN conjunct2, THEN conjunct1]
  have 1: "obj' = Some (kafka ''1'' 1)" by (simp only: o)
  from inst[THEN conjunct2, THEN conjunct2, THEN conjunct1] rd kafka_fields_exported
  have 2: "r = None" by blast
  from inst[THEN conjunct2, THEN conjunct2, THEN conjunct2] 2
  have "client s' (''/object/'' @ KeyForStorable (kafka ''1'' 0) @ ''@1'')
      = ObjectData (SetGeneration (kafka ''1'' 0) 1)" by blast
  then have 3: "client s' ''/object/p/service/kafka@1'' = ObjectData (kafka ''1'' 1)"
    unfolding o k by simp
  from 1 2 3 show ?thesis unfolding s'_def obj'_def r_def by blast
qed

section \<open>Claim C6: removing from an IndexValueList\<close>

text \<open>
  Claim C6. For a sorted list, \<^verbatim>\<open>Remove\<close> should delete the value when it is present and
  leave the list unchanged when it is absent. The source removes the element at the
  search position without comparing it with the value: on the sorted list
  \<open>[a, c]\<close>, removing the absent value \<open>b\<close> deletes \<open>c\<close>, while \<^verbatim>\<open>Contains\<close> (which has
  the comparison) reports that \<open>b\<close> is not in the list.
\<close>

theorem Remove_absent_deletes_other:
  "sorted_bytes [''a'', ''c''] \<and> \<not> Contains [''a'', ''c''] ''b''
   \<and> Remove [''a'', ''c''] ''b'' = [''a'']"
  by (simp add: sorted_bytes_def Contains_def Remove_def sort_Search_def
      sort_Search_loop.simps)

section \<open>Claim C7: marshaling and unmarshaling a list of objects\<close>

text \<open>
  Claim C7. For every list of policy objects, that is, objects of kinds of the catalog
  with exactly the fields of their kind, \<^verbatim>\<open>MarshalMany\<close> succeeds and \<^verbatim>\<open>UnmarshalOneOrMany\<close>
  of what it produced returns the same list. Every field of an object, empty or not, is
  in what \<^verbatim>\<open>Marshal\<close> produces. So the last step of \<^verbatim>\<open>LoadObjects\<close>, which marshals and
  unmarshals the loaded objects, changes nothing: \<^verbatim>\<open>LoadObjects\<close> returns what the loop
  over the files has collected, or the error of the loop. The field names of every kind
  of the catalog are distinct and none is \<^verbatim>\<open>kind\<close>.
\<close>

theorem MarshalMany_round_trip:
  "((\<forall>obj \<in> set objects. of_catalog catalog obj) \<longrightarrow>
      (\<exists>data. MarshalMany objects = Inr data \<and> UnmarshalOneOrMany catalog data = Inr objects))
   \<and> (\<forall>field \<in> set (Base_fields obj). \<exists>kvs. Marshal obj = Mapping kvs \<and> field \<in> set kvs)
   \<and> (catalog_wf catalog \<longrightarrow>
        LoadObjects catalog found = load_files catalog (sort_Strings found) [])"
proof -
  have 1: "(\<forall>obj \<in> set objects. of_catalog catalog obj) \<longrightarrow>
      (\<exists>data. MarshalMany objects = Inr data \<and> UnmarshalOneOrMany catalog data = Inr objects)"
    using UnmarshalOneOrMany_MarshalMany by blast
  have 2: "\<forall>field \<in> set (Base_fields obj). \<exists>kvs. Marshal obj = Mapping kvs \<and> field \<in> set kvs"
    by (simp add: Marshal_def set_sort_keys)
  have 3: "catalog_wf catalog \<longrightarrow>
        LoadObjects catalog found = load_files catalog (sort_Strings found) []"
  proof
    assume wf: "catalog_wf catalog"
    show "LoadObjects catalog found = load_files catalog (sort_Strings found) []"
    proof (cases "load_files catalog (sort_Strings found) []")
      case (Inl err)
      then show ?thesis by (simp add: LoadObjects_def)
    next
      case (Inr result)
      from load_files_of_catalog[OF Inr wf] have "\<forall>obj \<in> set result. of_catalog catalog obj"
        by simp
      from UnmarshalOneOrMany_MarshalMany[OF this] Inr show ?thesis
        by (auto simp: LoadObjects_def)
    qed
  qed
  show ?thesis by (intro conjI) (rule 1 2 3)+
qed

theorem MarshalMany_round_trip_witness:
  "UnmarshalOneOrMany example_catalog (Sequence (map Marshal example_objects)) = Inr example_objects
   \<and> (\<exists>kvs. Marshal (hd example_objects) = Mapping kvs \<and> (''labels'', Scalar []) \<in> set kvs)
   \<and> LoadObjects example_catalog example_files = Inr (rev example_objects)"
proof -
  note inst = MarshalMany_round_trip[where objects = example_objects
      and catalog = example_catalog and obj = "hd example_objects" and found = example_files]
  have mem: "(''labels'', Scalar []) \<in> set (Base_fields (hd example_objects))"
    by (simp add: example_objects_def)
  from inst[THEN conjunct1, THEN mp, OF example_objects_of_catalog]
  have 1: "UnmarshalOneOrMany example_catalog (Sequence (map Marshal example_objects)) = Inr example_objects"
    by (simp add: MarshalMany_def)
  from inst[THEN conjunct2, THEN conjunct1, THEN bspec, OF mem]
  have 2: "\<exists>kvs. Marshal (hd example_objects) = Mapping kvs \<and> (''labels'', Scalar []) \<in> set kvs" .
  from inst[THEN conjunct2, THEN conjunct2, THEN mp, OF example_catalog_wf]
  have 3: "LoadObjects example_catalog example_files = Inr (rev example_objects)"
    by (simp add: example_load_files)
  show ?thesis by (intro conjI) (rule 1 2 3)+
qed

section \<open>Claim C8: the handlers in noop mode\<close>

text \<open>
  Claim C8. When the \<^verbatim>\<open>noop\<close> flag is set on a policy update or a policy delete request,
  the handler persists neither a new policy generation nor a new revision, and responds
  with \<^verbatim>\<open>PolicyChanged\<close> false, the unchanged \<^verbatim>\<open>PolicyGeneration\<close>, \<^verbatim>\<open>WaitForRevision\<close> equal
  to \<^verbatim>\<open>MaxGeneration\<close>, the computed action plan as text, and the event log. Here: with
  the flag set, whatever the request, the registry after the handler is the registry
  before it and nothing is sent to the enforcement loop; when the handler writes a
  response (it does not panic), the response is the one described by
  \<^const>\<open>noop_result\<close> for the policy the handler has put together from the latest one;
  and the handler does write that response, with the generation of the latest policy,
  the plan from the desired state of its last revision to the resolution of the policy
  put together, and the events of that resolution, whenever the registry can be read,
  the loop over the sorted objects ends without a panic and the validations pass.
\<close>

theorem noop_handlers_write_nothing:
  assumes noop: "strconv_ParseBool (params ''noop'') = Some True"
  shows "fst (handlePolicyUpdate api reg objects requestUser params) = reg
       \<and> \<not> snd (snd (handlePolicyUpdate api reg objects requestUser params))
       \<and> (\<forall>res. fst (snd (handlePolicyUpdate api reg objects requestUser params)) = Inr res \<longrightarrow>
             (\<exists>user policy0 g policyUpdated.
                requestUser = Some user
                \<and> GetPolicy api reg (PolicyGeneration res) = Inr (policy0, g)
                \<and> update_objects api user policy0 (sort_Sort api Less objects) = Inr policyUpdated
                \<and> noop_result api reg params ''api-policy-update'' policyUpdated res))
       \<and> fst (handlePolicyDelete api reg objects requestUser params) = reg
       \<and> \<not> snd (snd (handlePolicyDelete api reg objects requestUser params))
       \<and> (\<forall>res. fst (snd (handlePolicyDelete api reg objects requestUser params)) = Inr res \<longrightarrow>
             (\<exists>user policy0 g policyUpdated.
                requestUser = Some user
                \<and> GetPolicy api reg (PolicyGeneration res) = Inr (policy0, g)
                \<and> delete_objects api user policy0 (sort_Sort api (sort_Reverse Less) objects)
                    = Inr policyUpdated
                \<and> noop_result api reg params ''api-policy-delete'' policyUpdated res))
       \<and> (\<forall>user policyGen desiredState policy0 policyUpdated.
             requestUser = Some user
             \<and> latest api reg policyGen desiredState policy0
             \<and> update_objects api user policy0 (sort_Sort api Less objects) = Inr policyUpdated
             \<and> Validate api policyUpdated = None
             \<and> validate_clusters api (sort_Sort api Less objects) = None
             \<and> resolution_Validate api
                  (fst (resolution api params ''api-policy-update'' policyUpdated)) policyUpdated
                 = None
           \<longrightarrow> handlePolicyUpdate api reg objects requestUser params =
                 (reg,
                  Inr \<lparr>PolicyGeneration = policyGen, PolicyChanged = False,
                       WaitForRevision = MaxGeneration,
                       PlanAsText = AsText api (NewPolicyResolutionDiff api
                         (fst (resolution api params ''api-policy-update'' policyUpdated))
                         desiredState),
                       EventLog = snd (resolution api params ''api-policy-update'' policyUpdated)\<rparr>,
                  False))
       \<and> (\<forall>user policyGen desiredState policy0 policyUpdated.
             requestUser = Some user
             \<and> latest api reg policyGen desiredState policy0
             \<and> delete_objects api user policy0 (sort_Sort api (sort_Reverse Less) objects)
                 = Inr policyUpdated
             \<and> Validate api policyUpdated = None
             \<and> resolution_Validate api
                  (fst (resolution api params ''api-policy-delete'' policyUpdated)) policyUpdated
                 = None
           \<longrightarrow> handlePolicyDelete api reg objects requestUser params =
                 (reg,
                  Inr \<lparr>PolicyGeneration = policyGen, PolicyChanged = False,
                       WaitForRevision = MaxGeneration,
                       PlanAsText = AsText api (NewPolicyResolutionDiff api
                         (fst (resolution api params ''api-policy-delete'' policyUpdated))
                         desiredState),
                       EventLog = snd (resolution api params ''api-policy-delete'' policyUpdated)\<rparr>,
                  False))"
proof -
  have prep_noop: "prep_noop prep"
    if "resolve_and_diff api params logName objs policyGen desiredState policyUpdated = Inr prep"
    for logName objs policyGen desiredState policyUpdated and prep :: "('d, 'e) prepared"
    using resolve_and_diff_Inr[OF that refl] noop by simp
  have upd: "fst (handlePolicyUpdate api reg objects requestUser params) = reg
       \<and> \<not> snd (snd (handlePolicyUpdate api reg objects requestUser params))
       \<and> (\<forall>res. fst (snd (handlePolicyUpdate api reg objects requestUser params)) = Inr res \<longrightarrow>
             (\<exists>user policy0 g policyUpdated.
                requestUser = Some user
                \<and> GetPolicy api reg (PolicyGeneration res) = Inr (policy0, g)
                \<and> update_objects api user policy0 (sort_Sort api Less objects) = Inr policyUpdated
                \<and> noop_result api reg params ''api-policy-update'' policyUpdated res))"
  proof (cases requestUser)
    case None
    then show ?thesis by (simp add: handlePolicyUpdate_def)
  next
    case (Some user)
    show ?thesis
    proof (cases "handlePolicyUpdate_prepare api reg objects user params")
      case (Inl e)
      with Some show ?thesis by (simp add: handlePolicyUpdate_def)
    next
      case (Inr prep)
      then obtain policyGen desiredState policy0 policyUpdated where
        l: "load_latest api reg = Inr (policyGen, desiredState, policy0)"
        and u: "update_objects api user policy0 (sort_Sort api Less objects) = Inr policyUpdated"
        and r: "resolve_and_diff api params ''api-policy-update'' (sort_Sort api Less objects)
                  policyGen desiredState policyUpdated = Inr prep"
        by (auto simp: handlePolicyUpdate_prepare_def Let_def split: sum.splits option.splits)
      note n = prep_noop[OF r]
      from load_latest_Inr[OF l] obtain g where
        g: "GetPolicy api reg policyGen = Inr (policy0, g)" by blast
      have pg: "prep_policyGen prep = policyGen" using resolve_and_diff_Inr[OF r refl] by simp
      have run: "handlePolicyUpdate api reg objects requestUser params =
        (reg,
         Inr \<lparr>PolicyGeneration = prep_policyGen prep, PolicyChanged = False,
              WaitForRevision = MaxGeneration, PlanAsText = AsText api (prep_actionPlan prep),
              EventLog = prep_events prep\<rparr>,
         False)"
        using Some Inr by (simp add: handlePolicyUpdate_def respond_noop[OF n])
      show ?thesis
        unfolding run using Some g u noop_resultI[OF l r n] pg by auto
    qed
  qed
  have del: "fst (handlePolicyDelete api reg objects requestUser params) = reg
       \<and> \<not> snd (snd (handlePolicyDelete api reg objects requestUser params))
       \<and> (\<forall>res. fst (snd (handlePolicyDelete api reg objects requestUser params)) = Inr res \<longrightarrow>
             (\<exists>user policy0 g policyUpdated.
                requestUser = Some user
                \<and> GetPolicy api reg (PolicyGeneration res) = Inr (policy0, g)
                \<and> delete_objects api user policy0 (sort_Sort api (sort_Reverse Less) objects)
                    = Inr policyUpdated
                \<and> noop_result api reg params ''api-policy-delete'' policyUpdated res))"
  proof (cases requestUser)
    case None
    then show ?thesis by (simp add: handlePolicyDelete_def)
  next
    case (Some user)
    show ?thesis
    proof (cases "handlePolicyDelete_prepare api reg objects user params")
      case (Inl e)
      with Some show ?thesis by (simp add: handlePolicyDelete_def)
    next
      case (Inr prep)
      then obtain policyGen desiredState policy0 policyUpdated where
        l: "load_latest api reg = Inr (policyGen, desiredState, policy0)"
        and u: "delete_objects api user policy0 (sort_Sort api (sort_Reverse Less) objects)
                  = Inr policyUpdated"
        and r: "resolve_and_diff api params ''api-policy-delete''
                  (sort_Sort api (sort_Reverse Less) objects)
                  policyGen desiredState policyUpdated = Inr prep"
        by (auto simp: handlePolicyDelete_prepare_def Let_def split: sum.splits option.splits)
      note n = prep_noop[OF r]
      from load_latest_Inr[OF l] obtain g where
        g: "GetPolicy api reg policyGen = Inr (policy0, g)" by blast
      have pg: "prep_policyGen prep = policyGen" using resolve_and_diff_Inr[OF r refl] by simp
      have run: "handlePolicyDelete api reg objects requestUser params =
        (reg,
         Inr \<lparr>PolicyGeneration = prep_policyGen prep, PolicyChanged = False,
              WaitForRevision = MaxGeneration, PlanAsText = AsText api (prep_actionPlan prep),
              EventLog = prep_events prep\<rparr>,
         False)"
        using Some Inr by (simp add: handlePolicyDelete_def respond_noop[OF n])
      show ?thesis
        unfolding run using Some g u noop_resultI[OF l r n] pg by auto
    qed
  qed
  have updr: "\<forall>user policyGen desiredState policy0 policyUpdated.
             requestUser = Some user
             \<and> latest api reg policyGen desiredState policy0
             \<and> update_objects api user policy0 (sort_Sort api Less objects) = Inr policyUpdated
             \<and> Validate api policyUpdated = None
             \<and> validate_clusters api (sort_Sort api Less objects) = None
             \<and> resolution_Validate api
                  (fst (resolution api params ''api-policy-update'' policyUpdated)) policyUpdated
                 = None
           \<longrightarrow> handlePolicyUpdate api reg objects requestUser params =
                 (reg,
                  Inr \<lparr>PolicyGeneration = policyGen, PolicyChanged = False,
                       WaitForRevision = MaxGeneration,
                       PlanAsText = AsText api (NewPolicyResolutionDiff api
                         (fst (resolution api params ''api-policy-update'' policyUpdated))
                         desiredState),
                       EventLog = snd (resolution api params ''api-policy-update'' policyUpdated)\<rparr>,
                  False)"
  proof (intro allI impI, elim conjE)
    fix user policyGen desiredState policy0 policyUpdated
    assume u: "requestUser = Some user"
      and l: "latest api reg policyGen desiredState policy0"
      and o: "update_objects api user policy0 (sort_Sort api Less objects) = Inr policyUpdated"
      and v: "Validate api policyUpdated = None"
      and c: "validate_clusters api (sort_Sort api Less objects) = None"
      and r: "resolution_Validate api
                  (fst (resolution api params ''api-policy-update'' policyUpdated)) policyUpdated
                 = None"
    show "handlePolicyUpdate api reg objects requestUser params =
                 (reg,
                  Inr \<lparr>PolicyGeneration = policyGen, PolicyChanged = False,
                       WaitForRevision = MaxGeneration,
                       PlanAsText = AsText api (NewPolicyResolutionDiff api
                         (fst (resolution api params ''api-policy-update'' policyUpdated))
                         desiredState),
                       EventLog = snd (resolution api params ''api-policy-update'' policyUpdated)\<rparr>,
                  False)"
      using u noop
      by (simp add: handlePolicyUpdate_def handlePolicyUpdate_prepare_Inr[OF l o v c r] respond_def)
  qed
  have delr: "\<forall>user policyGen desiredState policy0 policyUpdated.
             requestUser = Some user
             \<and> latest api reg policyGen desiredState policy0
             \<and> delete_objects api user policy0 (sort_Sort api (sort_Reverse Less) objects)
                 = Inr policyUpdated
             \<and> Validate api policyUpdated = None
             \<and> resolution_Validate api
                  (fst (resolution api params ''api-policy-delete'' policyUpdated)) policyUpdated
                 = None
           \<longrightarrow> handlePolicyDelete api reg objects requestUser params =
                 (reg,
                  Inr \<lparr>PolicyGeneration = policyGen, PolicyChanged = False,
                       WaitForRevision = MaxGeneration,
                       PlanAsText = AsText api (NewPolicyResolutionDiff api
                         (fst (resolution api params ''api-policy-delete'' policyUpdated))
                         desiredState),
                       EventLog = snd (resolution api params ''api-policy-delete'' policyUpdated)\<rparr>,
                  False)"
  proof (intro allI impI, elim conjE)
    fix user policyGen desiredState policy0 policyUpdated
    assume u: "requestUser = Some user"
      and l: "latest api reg policyGen desiredState policy0"
      and o: "delete_objects api user policy0 (sort_Sort api (sort_Reverse Less) objects)
                 = Inr policyUpdated"
      and v: "Validate api policyUpdated = None"
      and r: "resolution_Validate api
                  (fst (resolution api params ''api-policy-delete'' policyUpdated)) policyUpdated
                 = None"
    show "handlePolicyDelete api reg objects requestUser params =
                 (reg,
                  Inr \<lparr>PolicyGeneration = policyGen, PolicyChanged = False,
                       WaitForRevision = MaxGeneration,
                       PlanAsText = AsText api (NewPolicyResolutionDiff api
                         (fst (resolution api params ''api-policy-delete'' policyUpdated))
                         desiredState),
                       EventLog = snd (resolution api params ''api-policy-delete'' policyUpdated)\<rparr>,
                  False)"
      using u noop
      by (simp add: handlePolicyDelete_def handlePolicyDelete_prepare_Inr[OF l o v r] respond_def)
  qed
  show ?thesis
    by (intro conjI) (rule upd[THEN conjunct1] upd[THEN conjunct2, THEN conjunct1]
        upd[THEN conjunct2, THEN conjunct2] del[THEN conjunct1]
        del[THEN conjunct2, THEN conjunct1] del[THEN conjunct2, THEN conjunct2] updr delr)+
qed

text \<open>
  The theorem at two requests of user \<open>alice\<close> on the concrete API, with the flag set. The
  registry holds the empty policy at generation \<open>5\<close>, and the update of \<open>kafka\<close> and the
  rule is answered with generation \<open>5\<close> and a plan. The registry holds the rule and
  \<open>kafka\<close> at generation \<open>5\<close>, and the request to delete both is answered with generation
  \<open>5\<close> and the empty plan (the desired state of the last revision is empty in this API).
  Both registries are left as they were.
\<close>

theorem noop_handlers_write_nothing_witness:
  "handlePolicyUpdate example_api ([], 5) [kafka ''1'' 0, example_rule]
          (Some \<lparr>User_Name = ''alice''\<rparr>) example_params
      = (([], 5),
         Inr \<lparr>PolicyGeneration = 5, PolicyChanged = False, WaitForRevision = MaxGeneration,
              PlanAsText = ''changes'', EventLog = [''api-policy-update'']\<rparr>,
         False)
   \<and> handlePolicyDelete example_api ([example_rule, kafka ''1'' 0], 5)
          [example_rule, kafka ''1'' 0] (Some \<lparr>User_Name = ''alice''\<rparr>) example_params
      = (([example_rule, kafka ''1'' 0], 5),
         Inr \<lparr>PolicyGeneration = 5, PolicyChanged = False, WaitForRevision = MaxGeneration,
              PlanAsText = [], EventLog = [''api-policy-delete'']\<rparr>,
         False)"
proof -
  let ?user = "\<lparr>User_Name = ''alice''\<rparr>"
  let ?objs = "[example_rule, kafka ''1'' 0]"
  have noop: "strconv_ParseBool (example_params ''noop'') = Some True"
    by (simp add: strconv_ParseBool_def example_params_def)
  note upd = noop_handlers_write_nothing[where params = example_params and api = example_api
      and reg = "([], 5)" and objects = "[kafka ''1'' 0, example_rule]"
      and requestUser = "Some ?user", OF noop]
  note del = noop_handlers_write_nothing[where params = example_params and api = example_api
      and reg = "(?objs, 5)" and objects = ?objs
      and requestUser = "Some ?user", OF noop]
  note updr = upd[THEN conjunct2, THEN conjunct2, THEN conjunct2, THEN conjunct2, THEN conjunct2,
      THEN conjunct2, THEN conjunct1, rule_format]
  note delr = del[THEN conjunct2, THEN conjunct2, THEN conjunct2, THEN conjunct2, THEN conjunct2,
      THEN conjunct2, THEN conjunct2, rule_format]
  have l0: "latest example_api ([], 5) 5 [] []"
    by (simp add: latest_def example_api_def)
  have l1: "latest example_api (?objs, 5) 5 [] ?objs"
    by (simp add: latest_def example_api_def)
  have u: "update_objects example_api ?user [] (sort_Sort example_api Less [kafka ''1'' 0, example_rule])
      = Inr ?objs"
    unfolding example_sort_up
    by (simp add: example_api_def kafka_def example_rule_def TypeACLRule_Kind_def)
  have d: "delete_objects example_api ?user ?objs (sort_Sort example_api (sort_Reverse Less) ?objs)
      = Inr []"
    unfolding example_sort_down
    by (simp add: example_api_def kafka_def example_rule_def TypeACLRule_Kind_def)
  have vc: "validate_clusters example_api (sort_Sort example_api Less [kafka ''1'' 0, example_rule])
      = None"
    unfolding example_sort_up
    by (simp add: example_api_def kafka_def example_rule_def)
  have v: "Validate example_api p = None" for p by (simp add: example_api_def)
  have rv: "resolution_Validate example_api ds p = None" for ds p by (simp add: example_api_def)
  have 1: "handlePolicyUpdate example_api ([], 5) [kafka ''1'' 0, example_rule]
          (Some ?user) example_params
      = (([], 5),
         Inr \<lparr>PolicyGeneration = 5, PolicyChanged = False, WaitForRevision = MaxGeneration,
              PlanAsText = ''changes'', EventLog = [''api-policy-update'']\<rparr>,
         False)"
    using updr[where user = ?user and policyUpdated = ?objs, OF conjI[OF refl conjI[OF l0 conjI[OF u conjI[OF v conjI[OF vc rv]]]]]]
    by (simp add: resolution_def example_api_def kafka_def example_rule_def)
  have 2: "handlePolicyDelete example_api (?objs, 5) ?objs (Some ?user) example_params
      = ((?objs, 5),
         Inr \<lparr>PolicyGeneration = 5, PolicyChanged = False, WaitForRevision = MaxGeneration,
              PlanAsText = [], EventLog = [''api-policy-delete'']\<rparr>,
         False)"
    using delr[where user = ?user and policyUpdated = "[]", OF conjI[OF refl conjI[OF l1 conjI[OF d conjI[OF v rv]]]]]
    by (simp add: resolution_def example_api_def kafka_def example_rule_def)
  show ?thesis by (intro conjI) (rule 1 2)+
qed

section \<open>Claim C9: the result container of Find\<close>

text \<open>
  Claim C9. \<^verbatim>\<open>Find\<close> validates the result container against \<^verbatim>\<open>TypeInfo.New()\<close>: its type
  must be the type of the object \<^verbatim>\<open>New()\<close> returns (a pointer to a single object of the
  kind's type) or a pointer to a slice of that type; any other type makes \<^verbatim>\<open>Find\<close> fail
  with an error and leaves the result as it was, and only such a type gives that
  error. \<^verbatim>\<open>Find\<close> does not query the store: its outcome is the same whatever the store
  holds. The kind is registered.
\<close>

theorem Find_checks_result_type:
  assumes "types s kind = Some info"
  shows "(result_type result \<noteq> New_type info
            \<and> result_type result \<noteq> PtrTo (SliceOf (New_type info))
          \<longrightarrow> (\<exists>msg. Find s kind result findOpts = (Some (Error msg), result)))
       \<and> (result_type result = New_type info
            \<or> result_type result = PtrTo (SliceOf (New_type info))
          \<longrightarrow> (\<forall>msg. fst (Find s kind result findOpts) \<noteq> Some (Error msg)))
       \<and> (\<forall>stm. Find (s\<lparr>client := stm\<rparr>) kind result findOpts = Find s kind result findOpts)"
proof -
  have np: "\<And>vt r msg. findByPredicate findOpts info vt result \<noteq> Inl (Error msg)"
    by (auto simp: findByPredicate_def appendToResult_def split: rtype.splits sum.splits if_splits)
  have 1: "result_type result \<noteq> New_type info
            \<and> result_type result \<noteq> PtrTo (SliceOf (New_type info))
          \<longrightarrow> (\<exists>msg. Find s kind result findOpts = (Some (Error msg), result))"
    using assms by (simp add: Find_def Let_def)
  have 2: "result_type result = New_type info
            \<or> result_type result = PtrTo (SliceOf (New_type info))
          \<longrightarrow> (\<forall>msg. fst (Find s kind result findOpts) \<noteq> Some (Error msg))"
    using assms np
    by (auto simp: Find_def Let_def findByKeyPrefix_def findByKey_def
        split: rtype.splits sum.splits)
  have 3: "\<forall>stm. Find (s\<lparr>client := stm\<rparr>) kind result findOpts = Find s kind result findOpts"
    by (simp add: Find_def)
  show ?thesis
    by (intro conjI) (rule 1 2 3)+
qed

text \<open>
  The theorem at the kind \<^verbatim>\<open>service\<close> and a result of another type: \<^verbatim>\<open>Find\<close> fails the same
  way on the empty store and on the store that holds the object.
\<close>

theorem Find_checks_result_type_witness:
  "(\<exists>msg. Find kafka_store ''service''
            \<lparr>result_type = PtrTo (StructType ''Cluster'' []), result_elems = []\<rparr>
            \<lparr>GetKeyPrefix = [], GetKey = ''p/service/kafka'', GetFieldEqName = []\<rparr>
          = (Some (Error msg), \<lparr>result_type = PtrTo (StructType ''Cluster'' []), result_elems = []\<rparr>))
   \<and> Find empty_store ''service''
            \<lparr>result_type = PtrTo (StructType ''Cluster'' []), result_elems = []\<rparr>
            \<lparr>GetKeyPrefix = [], GetKey = ''p/service/kafka'', GetFieldEqName = []\<rparr>
       = Find kafka_store ''service''
            \<lparr>result_type = PtrTo (StructType ''Cluster'' []), result_elems = []\<rparr>
            \<lparr>GetKeyPrefix = [], GetKey = ''p/service/kafka'', GetFieldEqName = []\<rparr>"
proof -
  let ?r = "\<lparr>result_type = PtrTo (StructType ''Cluster'' []), result_elems = []\<rparr>"
  let ?o = "\<lparr>GetKeyPrefix = [], GetKey = ''p/service/kafka'', GetFieldEqName = []\<rparr>"
  have kind: "types kafka_store ''service'' = Some ServiceInfo" by (simp add: kafka_store_types)
  have ne: "result_type ?r \<noteq> New_type ServiceInfo
            \<and> result_type ?r \<noteq> PtrTo (SliceOf (New_type ServiceInfo))"
    by (simp add: ServiceInfo_def)
  note inst = Find_checks_result_type[OF kind, of ?r ?o]
  from inst ne have 1: "\<exists>msg. Find kafka_store ''service'' ?r ?o = (Some (Error msg), ?r)"
    by blast
  have e: "Find empty_store ''service'' ?r ?o
      = Find (kafka_store\<lparr>client := client empty_store\<rparr>) ''service'' ?r ?o"
    by (simp add: Find_def kafka_store_types empty_store_def)
  from inst have "Find (kafka_store\<lparr>client := client empty_store\<rparr>) ''service'' ?r ?o
      = Find kafka_store ''service'' ?r ?o" by blast
  with e have 2: "Find empty_store ''service'' ?r ?o = Find kafka_store ''service'' ?r ?o" by simp
  from 1 2 show ?thesis by (intro conjI)
qed

section \<open>Claim C10: the order in which the handlers process the objects\<close>

text \<open>
  Claim C10. \<^verbatim>\<open>handlePolicyDelete\<close> removes the submitted objects from the copy of the
  policy in reverse sorted order, so that ACL rule objects come last;
  \<^verbatim>\<open>handlePolicyUpdate\<close> adds them in sorted order, ACL rule objects first; and each object
  passes the \<^verbatim>\<open>ManageObject\<close> check before it is removed or added. Here, for a \<^verbatim>\<open>sort.Sort\<close>
  that keeps its promise on the submitted objects: a handler that gets as far as the
  \<^verbatim>\<open>noop\<close> test has run its loop on the sorted objects and the latest policy; the sorted
  objects are the submitted ones; in the order of the delete handler no ACL rule comes
  before another object, in the order of the update handler no other object comes
  before an ACL rule; and a loop that ends without a panic has checked every object
  with \<^verbatim>\<open>ManageObject\<close> against the policy as the objects before it left it, and then
  removed or added it. Conversely, when the registry can be read: if every object of the
  order passes its check (and, for an update, can be added) and the validations pass,
  the handler reaches the \<^verbatim>\<open>noop\<close> test with the objects in that order and the desired
  state resolved from the policy the loop has left; and if an object of the order fails
  its check after those before it have passed, the handler panics with the message of
  the check, before that object is removed or added.
\<close>

theorem policy_objects_order_and_checks:
  assumes up: "sorted_by Less objects (sort_Sort api Less objects)"
    and down: "sorted_by (sort_Reverse Less) objects (sort_Sort api (sort_Reverse Less) objects)"
  shows "(\<forall>prep. handlePolicyDelete_prepare api reg objects user params = Inr prep \<longrightarrow>
            prep_objects prep = sort_Sort api (sort_Reverse Less) objects
            \<and> (\<exists>policyGen desiredState policy policy'.
                  load_latest api reg = Inr (policyGen, desiredState, policy)
                  \<and> delete_objects api user policy (sort_Sort api (sort_Reverse Less) objects)
                      = Inr policy'))
       \<and> mset (sort_Sort api (sort_Reverse Less) objects) = mset objects
       \<and> (\<forall>i j. i < j \<and> j < length objects
              \<and> GetKind (sort_Sort api (sort_Reverse Less) objects ! i) = TypeACLRule_Kind
            \<longrightarrow> GetKind (sort_Sort api (sort_Reverse Less) objects ! j) = TypeACLRule_Kind)
       \<and> (\<forall>os policy policy'. delete_objects api user policy os = Inr policy' \<longrightarrow>
            (\<forall>i < length os.
               ManageObject api (foldl (RemoveObject api) policy (take i os)) user (os ! i) = None)
            \<and> policy' = foldl (RemoveObject api) policy os)
       \<and> (\<forall>prep. handlePolicyUpdate_prepare api reg objects user params = Inr prep \<longrightarrow>
            prep_objects prep = sort_Sort api Less objects
            \<and> (\<exists>policyGen desiredState policy policy'.
                  load_latest api reg = Inr (policyGen, desiredState, policy)
                  \<and> update_objects api user policy (sort_Sort api Less objects) = Inr policy'))
       \<and> mset (sort_Sort api Less objects) = mset objects
       \<and> (\<forall>i j. i < j \<and> j < length objects
              \<and> GetKind (sort_Sort api Less objects ! j) = TypeACLRule_Kind
            \<longrightarrow> GetKind (sort_Sort api Less objects ! i) = TypeACLRule_Kind)
       \<and> (\<forall>os policy policy'. update_objects api user policy os = Inr policy' \<longrightarrow>
            (\<exists>pols. length pols = length os + 1 \<and> pols ! 0 = policy \<and> pols ! length os = policy'
               \<and> (\<forall>i < length os.
                     ManageObject api (pols ! i) user (os ! i) = None
                     \<and> AddObject api (pols ! i) (os ! i) = Inr (pols ! (i + 1)))))
       \<and> (\<forall>policyGen desiredState policy.
            latest api reg policyGen desiredState policy
            \<and> (\<forall>i < length (sort_Sort api (sort_Reverse Less) objects).
                  ManageObject api
                    (foldl (RemoveObject api) policy
                       (take i (sort_Sort api (sort_Reverse Less) objects)))
                    user (sort_Sort api (sort_Reverse Less) objects ! i) = None)
            \<and> Validate api
                 (foldl (RemoveObject api) policy (sort_Sort api (sort_Reverse Less) objects)) = None
            \<and> resolution_Validate api
                 (fst (resolution api params ''api-policy-delete''
                    (foldl (RemoveObject api) policy (sort_Sort api (sort_Reverse Less) objects))))
                 (foldl (RemoveObject api) policy (sort_Sort api (sort_Reverse Less) objects)) = None
          \<longrightarrow> (\<exists>prep. handlePolicyDelete_prepare api reg objects user params = Inr prep
                 \<and> prep_objects prep = sort_Sort api (sort_Reverse Less) objects
                 \<and> prep_desiredStateUpdated prep
                     = fst (resolution api params ''api-policy-delete''
                         (foldl (RemoveObject api) policy
                            (sort_Sort api (sort_Reverse Less) objects)))))
       \<and> (\<forall>policyGen desiredState policy i err.
            latest api reg policyGen desiredState policy
            \<and> i < length (sort_Sort api (sort_Reverse Less) objects)
            \<and> (\<forall>j < i.
                  ManageObject api
                    (foldl (RemoveObject api) policy
                       (take j (sort_Sort api (sort_Reverse Less) objects)))
                    user (sort_Sort api (sort_Reverse Less) objects ! j) = None)
            \<and> ManageObject api
                 (foldl (RemoveObject api) policy
                    (take i (sort_Sort api (sort_Reverse Less) objects)))
                 user (sort_Sort api (sort_Reverse Less) objects ! i) = Some err
          \<longrightarrow> handlePolicyDelete api reg objects (Some user) params
                = (reg, Inl (Panic (''Error while removing object from policy: '' @ err)), False))
       \<and> (\<forall>policyGen desiredState policy pols.
            latest api reg policyGen desiredState policy
            \<and> length pols = length (sort_Sort api Less objects) + 1 \<and> pols ! 0 = policy
            \<and> (\<forall>i < length (sort_Sort api Less objects).
                  ManageObject api (pols ! i) user (sort_Sort api Less objects ! i) = None
                  \<and> AddObject api (pols ! i) (sort_Sort api Less objects ! i) = Inr (pols ! (i + 1)))
            \<and> Validate api (pols ! length (sort_Sort api Less objects)) = None
            \<and> validate_clusters api (sort_Sort api Less objects) = None
            \<and> resolution_Validate api
                 (fst (resolution api params ''api-policy-update''
                    (pols ! length (sort_Sort api Less objects))))
                 (pols ! length (sort_Sort api Less objects)) = None
          \<longrightarrow> (\<exists>prep. handlePolicyUpdate_prepare api reg objects user params = Inr prep
                 \<and> prep_objects prep = sort_Sort api Less objects
                 \<and> prep_desiredStateUpdated prep
                     = fst (resolution api params ''api-policy-update''
                         (pols ! length (sort_Sort api Less objects)))))
       \<and> (\<forall>policyGen desiredState policy pols i err.
            latest api reg policyGen desiredState policy
            \<and> i < length (sort_Sort api Less objects)
            \<and> length pols = i + 1 \<and> pols ! 0 = policy
            \<and> (\<forall>j < i.
                  ManageObject api (pols ! j) user (sort_Sort api Less objects ! j) = None
                  \<and> AddObject api (pols ! j) (sort_Sort api Less objects ! j) = Inr (pols ! (j + 1)))
            \<and> ManageObject api (pols ! i) user (sort_Sort api Less objects ! i) = Some err
          \<longrightarrow> handlePolicyUpdate api reg objects (Some user) params
                = (reg, Inl (Panic (''error while adding updated object to policy: '' @ err)),
                   False))"
proof -
  let ?down = "sort_Sort api (sort_Reverse Less) objects"
  let ?up = "sort_Sort api Less objects"
  have ld: "length ?down = length objects"
    using down by (metis sorted_by_def size_mset)
  have lu: "length ?up = length objects"
    using up by (metis sorted_by_def size_mset)
  have 1: "\<forall>prep. handlePolicyDelete_prepare api reg objects user params = Inr prep \<longrightarrow>
            prep_objects prep = ?down
            \<and> (\<exists>policyGen desiredState policy policy'.
                  load_latest api reg = Inr (policyGen, desiredState, policy)
                  \<and> delete_objects api user policy ?down = Inr policy')"
  proof (intro allI impI)
    fix prep assume "handlePolicyDelete_prepare api reg objects user params = Inr prep"
    then obtain policyGen desiredState policy0 policyUpdated where
      l: "load_latest api reg = Inr (policyGen, desiredState, policy0)"
      and u: "delete_objects api user policy0 ?down = Inr policyUpdated"
      and r: "resolve_and_diff api params ''api-policy-delete'' ?down
                policyGen desiredState policyUpdated = Inr prep"
      by (auto simp: handlePolicyDelete_prepare_def Let_def split: sum.splits option.splits)
    from resolve_and_diff_Inr[OF r refl] l u
    show "prep_objects prep = ?down
            \<and> (\<exists>policyGen desiredState policy policy'.
                  load_latest api reg = Inr (policyGen, desiredState, policy)
                  \<and> delete_objects api user policy ?down = Inr policy')"
      by blast
  qed
  have 2: "mset ?down = mset objects" using down by (simp add: sorted_by_def)
  have 3: "\<forall>i j. i < j \<and> j < length objects \<and> GetKind (?down ! i) = TypeACLRule_Kind
            \<longrightarrow> GetKind (?down ! j) = TypeACLRule_Kind"
    using sorted_by_Reverse_ACL_last[OF down] ld by auto
  have 4: "\<forall>os policy policy'. delete_objects api user policy os = Inr policy' \<longrightarrow>
            (\<forall>i < length os.
               ManageObject api (foldl (RemoveObject api) policy (take i os)) user (os ! i) = None)
            \<and> policy' = foldl (RemoveObject api) policy os"
    by (simp add: delete_objects_Inr)
  have 5: "\<forall>prep. handlePolicyUpdate_prepare api reg objects user params = Inr prep \<longrightarrow>
            prep_objects prep = ?up
            \<and> (\<exists>policyGen desiredState policy policy'.
                  load_latest api reg = Inr (policyGen, desiredState, policy)
                  \<and> update_objects api user policy ?up = Inr policy')"
  proof (intro allI impI)
    fix prep assume "handlePolicyUpdate_prepare api reg objects user params = Inr prep"
    then obtain policyGen desiredState policy0 policyUpdated where
      l: "load_latest api reg = Inr (policyGen, desiredState, policy0)"
      and u: "update_objects api user policy0 ?up = Inr policyUpdated"
      and r: "resolve_and_diff api params ''api-policy-update'' ?up
                policyGen desiredState policyUpdated = Inr prep"
      by (auto simp: handlePolicyUpdate_prepare_def Let_def split: sum.splits option.splits)
    from resolve_and_diff_Inr[OF r refl] l u
    show "prep_objects prep = ?up
            \<and> (\<exists>policyGen desiredState policy policy'.
                  load_latest api reg = Inr (policyGen, desiredState, policy)
                  \<and> update_objects api user policy ?up = Inr policy')"
      by blast
  qed
  have 6: "mset ?up = mset objects" using up by (simp add: sorted_by_def)
  have 7: "\<forall>i j. i < j \<and> j < length objects \<and> GetKind (?up ! j) = TypeACLRule_Kind
            \<longrightarrow> GetKind (?up ! i) = TypeACLRule_Kind"
    using sorted_by_Less_ACL_first[OF up] lu by auto
  have 8: "\<forall>os policy policy'. update_objects api user policy os = Inr policy' \<longrightarrow>
            (\<exists>pols. length pols = length os + 1 \<and> pols ! 0 = policy \<and> pols ! length os = policy'
               \<and> (\<forall>i < length os.
                     ManageObject api (pols ! i) user (os ! i) = None
                     \<and> AddObject api (pols ! i) (os ! i) = Inr (pols ! (i + 1))))"
  proof (intro allI impI)
    fix os policy policy' assume "update_objects api user policy os = Inr policy'"
    from update_objects_Inr[OF this]
    show "\<exists>pols. length pols = length os + 1 \<and> pols ! 0 = policy \<and> pols ! length os = policy'
               \<and> (\<forall>i < length os.
                     ManageObject api (pols ! i) user (os ! i) = None
                     \<and> AddObject api (pols ! i) (os ! i) = Inr (pols ! (i + 1)))" .
  qed
  have 9: "\<forall>policyGen desiredState policy.
            latest api reg policyGen desiredState policy
            \<and> (\<forall>i < length ?down.
                  ManageObject api (foldl (RemoveObject api) policy (take i ?down))
                    user (?down ! i) = None)
            \<and> Validate api (foldl (RemoveObject api) policy ?down) = None
            \<and> resolution_Validate api
                 (fst (resolution api params ''api-policy-delete''
                    (foldl (RemoveObject api) policy ?down)))
                 (foldl (RemoveObject api) policy ?down) = None
          \<longrightarrow> (\<exists>prep. handlePolicyDelete_prepare api reg objects user params = Inr prep
                 \<and> prep_objects prep = ?down
                 \<and> prep_desiredStateUpdated prep
                     = fst (resolution api params ''api-policy-delete''
                         (foldl (RemoveObject api) policy ?down)))"
  proof (intro allI impI, elim conjE)
    fix policyGen desiredState policy
    assume l: "latest api reg policyGen desiredState policy"
      and m: "\<forall>i < length ?down.
                  ManageObject api (foldl (RemoveObject api) policy (take i ?down))
                    user (?down ! i) = None"
      and v: "Validate api (foldl (RemoveObject api) policy ?down) = None"
      and r: "resolution_Validate api
                 (fst (resolution api params ''api-policy-delete''
                    (foldl (RemoveObject api) policy ?down)))
                 (foldl (RemoveObject api) policy ?down) = None"
    from m have d: "delete_objects api user policy ?down = Inr (foldl (RemoveObject api) policy ?down)"
      by (simp add: delete_objects_Inr)
    show "\<exists>prep. handlePolicyDelete_prepare api reg objects user params = Inr prep
                 \<and> prep_objects prep = ?down
                 \<and> prep_desiredStateUpdated prep
                     = fst (resolution api params ''api-policy-delete''
                         (foldl (RemoveObject api) policy ?down))"
      by (simp add: handlePolicyDelete_prepare_Inr[OF l d v r])
  qed
  have 10: "\<forall>policyGen desiredState policy i err.
            latest api reg policyGen desiredState policy
            \<and> i < length ?down
            \<and> (\<forall>j < i.
                  ManageObject api (foldl (RemoveObject api) policy (take j ?down))
                    user (?down ! j) = None)
            \<and> ManageObject api (foldl (RemoveObject api) policy (take i ?down))
                 user (?down ! i) = Some err
          \<longrightarrow> handlePolicyDelete api reg objects (Some user) params
                = (reg, Inl (Panic (''Error while removing object from policy: '' @ err)), False)"
  proof (intro allI impI, elim conjE)
    fix policyGen desiredState policy i err
    assume l: "latest api reg policyGen desiredState policy"
      and i: "i < length ?down"
      and p: "\<forall>j < i.
                  ManageObject api (foldl (RemoveObject api) policy (take j ?down))
                    user (?down ! j) = None"
      and e: "ManageObject api (foldl (RemoveObject api) policy (take i ?down))
                 user (?down ! i) = Some err"
    from l have ll: "load_latest api reg = Inr (policyGen, desiredState, policy)"
      by (simp add: load_latest_iff)
    show "handlePolicyDelete api reg objects (Some user) params
                = (reg, Inl (Panic (''Error while removing object from policy: '' @ err)), False)"
      by (simp add: handlePolicyDelete_def handlePolicyDelete_prepare_def ll Let_def
          delete_objects_Inl[OF i p e] del: append.simps)
  qed
  have 11: "\<forall>policyGen desiredState policy pols.
            latest api reg policyGen desiredState policy
            \<and> length pols = length ?up + 1 \<and> pols ! 0 = policy
            \<and> (\<forall>i < length ?up.
                  ManageObject api (pols ! i) user (?up ! i) = None
                  \<and> AddObject api (pols ! i) (?up ! i) = Inr (pols ! (i + 1)))
            \<and> Validate api (pols ! length ?up) = None
            \<and> validate_clusters api ?up = None
            \<and> resolution_Validate api
                 (fst (resolution api params ''api-policy-update'' (pols ! length ?up)))
                 (pols ! length ?up) = None
          \<longrightarrow> (\<exists>prep. handlePolicyUpdate_prepare api reg objects user params = Inr prep
                 \<and> prep_objects prep = ?up
                 \<and> prep_desiredStateUpdated prep
                     = fst (resolution api params ''api-policy-update'' (pols ! length ?up)))"
  proof (intro allI impI, elim conjE)
    fix policyGen desiredState policy pols
    assume l: "latest api reg policyGen desiredState policy"
      and n: "length pols = length ?up + 1" and z: "pols ! 0 = policy"
      and m: "\<forall>i < length ?up.
                  ManageObject api (pols ! i) user (?up ! i) = None
                  \<and> AddObject api (pols ! i) (?up ! i) = Inr (pols ! (i + 1))"
      and v: "Validate api (pols ! length ?up) = None"
      and c: "validate_clusters api ?up = None"
      and r: "resolution_Validate api
                 (fst (resolution api params ''api-policy-update'' (pols ! length ?up)))
                 (pols ! length ?up) = None"
    note u = update_objects_chain[OF n z m]
    show "\<exists>prep. handlePolicyUpdate_prepare api reg objects user params = Inr prep
                 \<and> prep_objects prep = ?up
                 \<and> prep_desiredStateUpdated prep
                     = fst (resolution api params ''api-policy-update'' (pols ! length ?up))"
      by (simp add: handlePolicyUpdate_prepare_Inr[OF l u v c r])
  qed
  have 12: "\<forall>policyGen desiredState policy pols i err.
            latest api reg policyGen desiredState policy
            \<and> i < length ?up
            \<and> length pols = i + 1 \<and> pols ! 0 = policy
            \<and> (\<forall>j < i.
                  ManageObject api (pols ! j) user (?up ! j) = None
                  \<and> AddObject api (pols ! j) (?up ! j) = Inr (pols ! (j + 1)))
            \<and> ManageObject api (pols ! i) user (?up ! i) = Some err
          \<longrightarrow> handlePolicyUpdate api reg objects (Some user) params
                = (reg, Inl (Panic (''error while adding updated object to policy: '' @ err)),
                   False)"
  proof (intro allI impI, elim conjE)
    fix policyGen desiredState policy pols i err
    assume l: "latest api reg policyGen desiredState policy"
      and i: "i < length ?up"
      and n: "length pols = i + 1" and z: "pols ! 0 = policy"
      and p: "\<forall>j < i.
                  ManageObject api (pols ! j) user (?up ! j) = None
                  \<and> AddObject api (pols ! j) (?up ! j) = Inr (pols ! (j + 1))"
      and e: "ManageObject api (pols ! i) user (?up ! i) = Some err"
    from l have ll: "load_latest api reg = Inr (policyGen, desiredState, policy)"
      by (simp add: load_latest_iff)
    show "handlePolicyUpdate api reg objects (Some user) params
                = (reg, Inl (Panic (''error while adding updated object to policy: '' @ err)),
                   False)"
      by (simp add: handlePolicyUpdate_def handlePolicyUpdate_prepare_def ll Let_def
          update_objects_Inl[OF i n z p e] del: append.simps)
  qed
  show ?thesis
    by (intro conjI) (rule 1 2 3 4 5 6 7 8 9 10 11 12)+
qed

text \<open>
  The theorem at the concrete API and the objects \<open>[rule, kafka]\<close>, submitted by \<open>alice\<close>
  without the \<^verbatim>\<open>noop\<close> flag. The policy of the registry holds the rule and \<open>kafka\<close>: the
  delete handler removes \<open>kafka\<close> first and then the rule, every check passes, and the
  request is answered; in the order submitted, the check of \<open>kafka\<close> would fail. The
  policy of the registry is empty: the update handler adds the rule first and then
  \<open>kafka\<close>; in the reverse order the check of \<open>kafka\<close> would fail.
\<close>

theorem policy_objects_order_and_checks_witness:
  "(\<exists>prep. handlePolicyDelete_prepare example_api ([example_rule, kafka ''1'' 0], 5)
              [example_rule, kafka ''1'' 0] \<lparr>User_Name = ''alice''\<rparr> (\<lambda>name. []) = Inr prep
          \<and> prep_objects prep = [kafka ''1'' 0, example_rule]
          \<and> prep_desiredStateUpdated prep = [])
   \<and> handlePolicyDelete example_api ([example_rule, kafka ''1'' 0], 5)
        [example_rule, kafka ''1'' 0] (Some \<lparr>User_Name = ''alice''\<rparr>) (\<lambda>name. [])
      = (([], 6),
         Inr \<lparr>PolicyGeneration = 6, PolicyChanged = True, WaitForRevision = 2,
              PlanAsText = [], EventLog = [''api-policy-delete'']\<rparr>,
         True)
   \<and> delete_objects example_api \<lparr>User_Name = ''alice''\<rparr> [example_rule, kafka ''1'' 0]
        [example_rule, kafka ''1'' 0]
      = Inl (Panic (''Error while removing object from policy: '' @ ''no ACL rule gives access''))
   \<and> (\<exists>prep. handlePolicyUpdate_prepare example_api ([], 5)
              [kafka ''1'' 0, example_rule] \<lparr>User_Name = ''alice''\<rparr> (\<lambda>name. []) = Inr prep
          \<and> prep_objects prep = [example_rule, kafka ''1'' 0]
          \<and> prep_desiredStateUpdated prep = [example_rule, kafka ''1'' 0])
   \<and> update_objects example_api \<lparr>User_Name = ''alice''\<rparr> [] [kafka ''1'' 0, example_rule]
      = Inl (Panic (''error while adding updated object to policy: '' @ ''no ACL rule gives access''))
   \<and> mset (sort_Sort example_api (sort_Reverse Less) [example_rule, kafka ''1'' 0])
       = mset [example_rule, kafka ''1'' 0]"
proof -
  let ?objs = "[example_rule, kafka ''1'' 0]"
  let ?sbjo = "[kafka ''1'' 0, example_rule]"
  let ?user = "\<lparr>User_Name = ''alice''\<rparr>"
  let ?params = "\<lambda>name::string. []::string"
  have k: "GetKind (kafka ''1'' 0) \<noteq> TypeACLRule_Kind" "GetKind example_rule = TypeACLRule_Kind"
      "kafka ''1'' 0 \<noteq> example_rule"
    by (simp_all add: kafka_def example_rule_def TypeACLRule_Kind_def)
  have up: "sorted_by Less ?objs (sort_Sort example_api Less ?objs)"
    unfolding sorted_by_def example_sort_up'
    by (simp add: Less_def Weight_def kafka_def example_rule_def TypeACLRule_Kind_def)
  have down: "sorted_by (sort_Reverse Less) ?objs (sort_Sort example_api (sort_Reverse Less) ?objs)"
    unfolding sorted_by_def example_sort_down
    by (simp add: Less_def Weight_def kafka_def example_rule_def TypeACLRule_Kind_def
        sort_Reverse_def)
  have up2: "sorted_by Less ?sbjo (sort_Sort example_api Less ?sbjo)"
    unfolding sorted_by_def example_sort_up
    by (simp add: Less_def Weight_def kafka_def example_rule_def TypeACLRule_Kind_def)
  have down2: "sorted_by (sort_Reverse Less) ?sbjo (sort_Sort example_api (sort_Reverse Less) ?sbjo)"
    unfolding sorted_by_def example_sort_down'
    by (simp add: Less_def Weight_def kafka_def example_rule_def TypeACLRule_Kind_def
        sort_Reverse_def)
  note del = policy_objects_order_and_checks[OF up down, where reg = "(?objs, 5)"
      and user = ?user and params = ?params]
  note upd = policy_objects_order_and_checks[OF up2 down2, where reg = "([], 5)"
      and user = ?user and params = ?params]
  note d9 = del[THEN conjunct2, THEN conjunct2, THEN conjunct2, THEN conjunct2, THEN conjunct2,
      THEN conjunct2, THEN conjunct2, THEN conjunct2, THEN conjunct1, rule_format,
      where policyGen = 5 and desiredState = "[]" and policy = ?objs, unfolded example_sort_down]
  note u11 = upd[THEN conjunct2, THEN conjunct2, THEN conjunct2, THEN conjunct2, THEN conjunct2,
      THEN conjunct2, THEN conjunct2, THEN conjunct2, THEN conjunct2, THEN conjunct2,
      THEN conjunct1, rule_format,
      where policyGen = 5 and desiredState = "[]" and policy = "[]"
        and pols = "[[], [example_rule], ?objs]", unfolded example_sort_up]
  have l1: "latest example_api (?objs, 5) 5 [] ?objs"
    by (simp add: latest_def example_api_def)
  have l0: "latest example_api ([], 5) 5 [] []"
    by (simp add: latest_def example_api_def)
  have v: "Validate example_api p = None" for p by (simp add: example_api_def)
  have rv: "resolution_Validate example_api ds p = None" for ds p by (simp add: example_api_def)
  have res: "fst (resolution example_api ?params n p) = p" for n p
    by (simp add: resolution_def example_api_def)
  have len: "length [[], [example_rule], ?objs] = length ?objs + 1" by simp
  have z: "[[], [example_rule], ?objs] ! 0 = []" by simp
  have rm: "foldl (RemoveObject example_api) ?objs ?sbjo = []"
    using k(3) by (simp add: example_api_def)
  have checks: "\<forall>i < length ?sbjo.
      ManageObject example_api (foldl (RemoveObject example_api) ?objs (take i ?sbjo))
        ?user (?sbjo ! i) = None"
    using k by (simp add: example_api_def less_Suc_eq)
  have 1: "\<exists>prep. handlePolicyDelete_prepare example_api (?objs, 5) ?objs ?user ?params = Inr prep
          \<and> prep_objects prep = ?sbjo \<and> prep_desiredStateUpdated prep = []"
    using d9[OF conjI[OF l1 conjI[OF checks conjI[OF v rv]]]] rm by (simp add: res)
  have 2: "handlePolicyDelete example_api (?objs, 5) ?objs (Some ?user) ?params
      = (([], 6),
         Inr \<lparr>PolicyGeneration = 6, PolicyChanged = True, WaitForRevision = 2,
              PlanAsText = [], EventLog = [''api-policy-delete'']\<rparr>,
         True)"
    by (simp add: handlePolicyDelete_def handlePolicyDelete_prepare_def load_latest_def
        resolve_and_diff_def respond_def changePolicy_def example_api_def strconv_ParseBool_def
        insertion_sort_def Less_def Weight_def sort_Reverse_def kafka_def example_rule_def
        TypeACLRule_Kind_def Let_def)
  have 3: "delete_objects example_api ?user ?objs ?objs
      = Inl (Panic (''Error while removing object from policy: '' @ ''no ACL rule gives access''))"
    using k by (simp add: example_api_def)
  have chain: "\<forall>i < length ?objs.
      ManageObject example_api ([[], [example_rule], ?objs] ! i) ?user (?objs ! i) = None
      \<and> AddObject example_api ([[], [example_rule], ?objs] ! i) (?objs ! i)
          = Inr ([[], [example_rule], ?objs] ! (i + 1))"
    using k by (simp add: example_api_def less_Suc_eq)
  have vc: "validate_clusters example_api ?objs = None"
    by (simp add: example_api_def kafka_def example_rule_def)
  have 4: "\<exists>prep. handlePolicyUpdate_prepare example_api ([], 5) ?sbjo ?user ?params = Inr prep
          \<and> prep_objects prep = ?objs \<and> prep_desiredStateUpdated prep = ?objs"
    using u11[OF conjI[OF l0 conjI[OF len conjI[OF z conjI[OF chain conjI[OF v conjI[OF vc rv]]]]]]]
    by (simp add: res)
  have 5: "update_objects example_api ?user [] ?sbjo
      = Inl (Panic (''error while adding updated object to policy: '' @ ''no ACL rule gives access''))"
    using k by (simp add: example_api_def)
  note 6 = del[THEN conjunct2, THEN conjunct1]
  show ?thesis by (intro conjI) (rule 1 2 3 4 5 6)+
qed

end
